theory Spec2Isabelle
  imports Complex_Main "HOL-Library.AList"
begin

section \<open>Strings\<close>

text \<open>
  Source strings are modelled as \<open>string\<close>; a \<open>char\<close> stands for one code unit in the
  range 0..255 (the Latin-1 part of the source's UTF-16 strings).
\<close>

abbreviation TAB :: char where "TAB \<equiv> CHR 0x09"
abbreviation LF :: char where "LF \<equiv> CHR 0x0A"
abbreviation CR :: char where "CR \<equiv> CHR 0x0D"
abbreviation DQUOTE :: char where "DQUOTE \<equiv> CHR 0x22"
abbreviation BACKSLASH :: char where "BACKSLASH \<equiv> CHR 0x5C"

text \<open>
  The characters matched by \<open>\s\<close> and removed by \<open>String.prototype.trim\<close>, in the range
  0..255: tab, line feed, vertical tab, form feed, carriage return, space, no-break space.
\<close>

definition isWhitespace :: "char \<Rightarrow> bool" where
  "isWhitespace c = (c \<in> set [CHR 0x09, CHR 0x0A, CHR 0x0B, CHR 0x0C, CHR 0x0D, CHR 0x20, CHR 0xA0])"

definition trim :: "string \<Rightarrow> string" where
  "trim s = rev (dropWhile isWhitespace (rev (dropWhile isWhitespace s)))"

text \<open>\<open>text.split(/\r?\n/)\<close>: a line feed, with a carriage return right before it if any,
  separates two lines; the result always has at least one element.\<close>

fun splitLinesFrom :: "string \<Rightarrow> string \<Rightarrow> string list" where
  "splitLinesFrom cur [] = [cur]"
| "splitLinesFrom cur [c] = (if c = LF then [cur, []] else [cur @ [c]])"
| "splitLinesFrom cur (c # n # rest) =
     (if c = CR \<and> n = LF then cur # splitLinesFrom [] rest
      else if c = LF then cur # splitLinesFrom [] (n # rest)
      else splitLinesFrom (cur @ [c]) (n # rest))"

definition splitLines :: "string \<Rightarrow> string list" where
  "splitLines s = splitLinesFrom [] s"

section \<open>csv-parser: tokenizer\<close>

definition detectDelimiter :: "string \<Rightarrow> string" where
  "detectDelimiter txt =
     (let firstLine = (case splitLines txt of [] \<Rightarrow> [] | l # _ \<Rightarrow> l);
          tabCount = length (filter (\<lambda>c. c = TAB) firstLine);
          commaCount = length (filter (\<lambda>c. c = CHR '','') firstLine)
      in if tabCount > commaCount then [TAB] else '','')"

text \<open>
  The loop of \<open>parseLine\<close>: the list is the part of the line from index \<open>i\<close> on, so
  \<open>char\<close> is its head and \<open>nextChar\<close> the head of its tail; \<open>i++\<close> inside the body
  drops one more character.
\<close>

fun parseLineLoop :: "string \<Rightarrow> string \<Rightarrow> bool \<Rightarrow> string \<Rightarrow> string list \<Rightarrow> string list" where
  "parseLineLoop delimiter [] inQuotes current fields = fields @ [trim current]"
| "parseLineLoop delimiter (char # rest) inQuotes current fields =
     (if inQuotes then
        (if char = DQUOTE \<and> rest \<noteq> [] \<and> hd rest = DQUOTE then
           parseLineLoop delimiter (tl rest) inQuotes (current @ [DQUOTE]) fields
         else if char = DQUOTE then
           parseLineLoop delimiter rest False current fields
         else
           parseLineLoop delimiter rest inQuotes (current @ [char]) fields)
      else
        (if char = DQUOTE then
           parseLineLoop delimiter rest True current fields
         else if [char] = delimiter then
           parseLineLoop delimiter rest inQuotes [] (fields @ [trim current])
         else
           parseLineLoop delimiter rest inQuotes (current @ [char]) fields))"

definition parseLine :: "string \<Rightarrow> string \<Rightarrow> string list" where
  "parseLine line delimiter = parseLineLoop delimiter line False [] []"

section \<open>csv-parser: header classification and normalisation\<close>

definition KNOWN_HEADERS :: "string list" where
  "KNOWN_HEADERS =
    [''name'', ''first name'', ''firstname'', ''first_name'', ''fname'',
     ''last name'', ''lastname'', ''last_name'', ''lname'', ''surname'',
     ''full name'', ''fullname'', ''full_name'',
     ''address'', ''address1'', ''address 1'', ''address_1'', ''street'', ''street address'',
     ''street_address'',
     ''address2'', ''address 2'', ''address_2'', ''apt'', ''apartment'', ''suite'', ''unit'',
     ''city'', ''town'',
     ''state'', ''province'', ''region'',
     ''zip'', ''zipcode'', ''zip code'', ''zip_code'', ''postal'', ''postal code'',
     ''postal_code'', ''postcode'',
     ''country'', ''nation'',
     ''email'', ''e-mail'', ''email address'', ''email_address'',
     ''phone'', ''telephone'', ''phone number'', ''phone_number'', ''tel'',
     ''company'', ''organization'', ''org'', ''business'',
     ''title'', ''prefix'', ''suffix'', ''salutation'',
     ''department'', ''dept'']"

text \<open>Case mapping of one code unit in 0..255. \<open>toLowerCase\<close> maps A-Z and the accented
  capitals 0xC0-0xDE (but not the multiplication sign 0xD7) 32 places up. \<open>toUpperCase\<close> is
  only ever applied to characters that passed the filter of \<open>normalizeHeader\<close> and are no
  separators, that is to ASCII letters and digits; there it maps a-z 32 places down.\<close>

definition toLowerCaseChar :: "char \<Rightarrow> char" where
  "toLowerCaseChar c =
     (let n = (of_char c :: nat)
      in if (65 \<le> n \<and> n \<le> 90) \<or> (192 \<le> n \<and> n \<le> 222 \<and> n \<noteq> 215) then char_of (n + 32) else c)"

definition toUpperCaseChar :: "char \<Rightarrow> char" where
  "toUpperCaseChar c =
     (let n = (of_char c :: nat)
      in if 97 \<le> n \<and> n \<le> 122 then char_of (n - 32) else c)"

definition toLowerCase :: "string \<Rightarrow> string" where
  "toLowerCase s = map toLowerCaseChar s"

definition detectHeaders :: "string list \<Rightarrow> bool" where
  "detectHeaders firstRow =
     (let normalizedRow = map (\<lambda>field. trim (toLowerCase field)) firstRow;
          matchCount = length (filter (\<lambda>field. field \<in> set KNOWN_HEADERS) normalizedRow)
      in matchCount \<ge> 2 \<or>
         (matchCount > 0 \<and> real matchCount \<ge> real (length normalizedRow) * 0.5))"

text \<open>Decimal digits of a number, as template literals print it.\<close>

fun numberToString :: "nat \<Rightarrow> string" where
  "numberToString n =
     (if n < 10 then [char_of (48 + n)]
      else numberToString (n div 10) @ [char_of (48 + n mod 10)])"

declare numberToString.simps [simp del]

definition generateColumnHeaders :: "nat \<Rightarrow> string list" where
  "generateColumnHeaders count = map (\<lambda>i. ''Column'' @ numberToString (i + 1)) [0..<count]"

definition isAlnum :: "char \<Rightarrow> bool" where
  "isAlnum c =
     (let n = (of_char c :: nat)
      in (97 \<le> n \<and> n \<le> 122) \<or> (65 \<le> n \<and> n \<le> 90) \<or> (48 \<le> n \<and> n \<le> 57))"

definition isWordSeparator :: "char \<Rightarrow> bool" where
  "isWordSeparator c = (isWhitespace c \<or> c = CHR ''_'' \<or> c = CHR ''-'')"

text \<open>\<open>cleaned.split(/[\s_-]+/)\<close>: the pieces between maximal runs of separators; a
  separator at either end leaves an empty piece there.\<close>

function splitWords :: "string \<Rightarrow> string list" where
  "splitWords s =
     (let word = takeWhile (\<lambda>c. \<not> isWordSeparator c) s;
          rest = dropWhile (\<lambda>c. \<not> isWordSeparator c) s
      in if rest = [] then [word]
         else word # splitWords (dropWhile isWordSeparator rest))"
  by pat_completeness auto
termination
proof (relation "measure length")
  fix s word rest
  assume r: "rest = dropWhile (\<lambda>c. \<not> isWordSeparator c) s" and ne: "rest \<noteq> []"
  have "length (dropWhile isWordSeparator rest) < length rest"
  proof -
    from r ne have "isWordSeparator (hd rest)"
      using hd_dropWhile [of "\<lambda>c. \<not> isWordSeparator c" s] by simp
    with ne have "dropWhile isWordSeparator rest = dropWhile isWordSeparator (tl rest)"
      by (cases rest) simp_all
    moreover have "length (dropWhile isWordSeparator (tl rest)) \<le> length (tl rest)"
      by (rule length_dropWhile_le)
    ultimately show ?thesis using ne by (cases rest) simp_all
  qed
  moreover have "length rest \<le> length s"
    unfolding r by (rule length_dropWhile_le)
  ultimately show "(dropWhile isWordSeparator rest, s) \<in> measure length"
    by simp
qed simp

declare splitWords.simps [simp del]

definition capitalize :: "string \<Rightarrow> string" where
  "capitalize word =
     (case word of [] \<Rightarrow> [] | c # cs \<Rightarrow> toUpperCaseChar c # map toLowerCaseChar cs)"

definition normalizeHeader :: "string \<Rightarrow> string" where
  "normalizeHeader header =
     (let cleaned = trim (filter (\<lambda>c. isAlnum c \<or> isWhitespace c \<or> c = CHR ''_'' \<or> c = CHR ''-'') header);
          words = splitWords cleaned
      in concat (map capitalize words))"

text \<open>The pass that suffixes repeated headers; \<open>headerCounts\<close> is the \<open>Map\<close> it threads
  through the callback of \<open>headers.map\<close>.\<close>

fun uniqueHeaders :: "(string \<rightharpoonup> nat) \<Rightarrow> string list \<Rightarrow> string list" where
  "uniqueHeaders headerCounts [] = []"
| "uniqueHeaders headerCounts (header # hs) =
     (let count = (case headerCounts header of None \<Rightarrow> 0 | Some c \<Rightarrow> c)
      in (if count > 0 then header @ numberToString (count + 1) else header)
         # uniqueHeaders (headerCounts(header \<mapsto> count + 1)) hs)"

section \<open>csv-parser: the dataset\<close>

text \<open>
  A row is a plain object with string keys: it is modelled by the list of its own
  properties. Assigning to a key that is already there replaces its value and adds no
  property (\<open>AList.update\<close>).
\<close>

type_synonym row = "(string \<times> string) list"

record ParsedData =
  headers :: "string list"
  rows :: "row list"
  hasHeaders :: bool

text \<open>The inner loop over \<open>j\<close>: \<open>row[header] = fields[j] ?? ''\<close>.\<close>

definition buildRow :: "string list \<Rightarrow> string list \<Rightarrow> row" where
  "buildRow hdrs flds =
     fold (\<lambda>j row. AList.update (hdrs ! j) (if j < length flds then flds ! j else []) row)
       [0..<length hdrs] []"

definition parseCSV :: "string \<Rightarrow> ParsedData" where
  "parseCSV txt =
     (let lines = filter (\<lambda>line. trim line \<noteq> []) (splitLines txt)
      in if length lines = 0 then \<lparr>headers = [], rows = [], hasHeaders = False\<rparr>
         else
           let delimiter = detectDelimiter txt;
               firstRow = parseLine (hd lines) delimiter;
               hasHdrs = detectHeaders firstRow;
               hdrs0 = (if hasHdrs then map normalizeHeader firstRow
                        else generateColumnHeaders (length firstRow));
               dataStartIndex = (if hasHdrs then 1 else 0 :: nat);
               hdrs = uniqueHeaders Map.empty hdrs0;
               rws = map (\<lambda>line. buildRow hdrs (parseLine line delimiter)) (drop dataStartIndex lines)
           in \<lparr>headers = hdrs, rows = rws, hasHeaders = hasHdrs\<rparr>)"

section \<open>csv-parser: template substitution\<close>

text \<open>
  Reading a property of a row, \<open>data[key]\<close>, finds the row's own property first and then
  what every plain object inherits from \<open>Object.prototype\<close>: the accessor \<open>__proto__\<close>,
  whose value is the prototype object itself, and eleven built-in methods. Only a key that is
  neither yields \<open>undefined\<close>.
\<close>

datatype jsvalue = JString string | JObjectPrototype | JNativeFunction string | JUndefined

definition OBJECT_PROTOTYPE_METHODS :: "(string \<times> string) list" where
  "OBJECT_PROTOTYPE_METHODS =
    [(''constructor'', ''Object''),
     (''hasOwnProperty'', ''hasOwnProperty''),
     (''isPrototypeOf'', ''isPrototypeOf''),
     (''propertyIsEnumerable'', ''propertyIsEnumerable''),
     (''toLocaleString'', ''toLocaleString''),
     (''toString'', ''toString''),
     (''valueOf'', ''valueOf''),
     (''__defineGetter__'', ''__defineGetter__''),
     (''__defineSetter__'', ''__defineSetter__''),
     (''__lookupGetter__'', ''__lookupGetter__''),
     (''__lookupSetter__'', ''__lookupSetter__'')]"

definition getProperty :: "row \<Rightarrow> string \<Rightarrow> jsvalue" where
  "getProperty data key =
     (case map_of data key of
        Some v \<Rightarrow> JString v
      | None \<Rightarrow>
          if key = ''__proto__'' then JObjectPrototype
          else (case map_of OBJECT_PROTOTYPE_METHODS key of
                  Some name \<Rightarrow> JNativeFunction name
                | None \<Rightarrow> JUndefined))"

text \<open>
  What \<open>String.prototype.replace\<close> inserts for the value its callback returns: the string
  itself, or the value converted to a string. The text of a built-in function is written as
  V8 prints it; other engines differ in white space only.
\<close>

definition valueToString :: "jsvalue \<Rightarrow> string" where
  "valueToString v =
     (case v of
        JString s \<Rightarrow> s
      | JObjectPrototype \<Rightarrow> ''[object Object]''
      | JNativeFunction name \<Rightarrow> ''function '' @ name @ ''() { [native code] }''
      | JUndefined \<Rightarrow> ''undefined'')"

text \<open>
  One attempt of the pattern \<open><<([^>]+)>>\<close> at the start of a text: two \<open><\<close>, then as many
  characters other than \<open>>\<close> as there are (at least one: the class excludes \<open>>\<close>, so no
  shorter run can be followed by \<open>>>\<close>), then two \<open>>\<close>. The result is the captured key and
  the text after the match.
\<close>

definition matchPlaceholder :: "string \<Rightarrow> (string \<times> string) option" where
  "matchPlaceholder s =
     (if take 2 s = ''<<'' then
        (let key = takeWhile (\<lambda>c. c \<noteq> CHR ''>'') (drop 2 s);
             after = dropWhile (\<lambda>c. c \<noteq> CHR ''>'') (drop 2 s)
         in if key \<noteq> [] \<and> take 2 after = ''>>'' then Some (key, drop 2 after) else None)
      else None)"

text \<open>The callback of \<open>template.replace\<close>: \<open>data[key.trim()] ?? match\<close>.\<close>

definition replacement :: "row \<Rightarrow> string \<Rightarrow> string" where
  "replacement data key =
     (case getProperty data (trim key) of
        JUndefined \<Rightarrow> ''<<'' @ key @ ''>>''
      | v \<Rightarrow> valueToString v)"

text \<open>The global replace: matches are looked for from left to right, each search starting
  after the previous match; what is not matched is copied.\<close>

function applyTemplate :: "string \<Rightarrow> row \<Rightarrow> string" where
  "applyTemplate template data =
     (case template of
        [] \<Rightarrow> []
      | c # cs \<Rightarrow>
          (case matchPlaceholder template of
             Some (key, rest) \<Rightarrow> replacement data key @ applyTemplate rest data
           | None \<Rightarrow> c # applyTemplate cs data))"
  by pat_completeness auto
termination
proof -
  have shorter: "length rest < length s" if m: "matchPlaceholder s = Some (key, rest)"
    for s key rest
  proof -
    let ?after = "dropWhile (\<lambda>c. c \<noteq> CHR ''>'') (drop 2 s)"
    from m have t: "take 2 s = ''<<''" and r: "rest = drop 2 ?after"
      by (auto simp: matchPlaceholder_def Let_def split: if_splits)
    have "length ?after \<le> length (drop 2 s)" by (rule length_dropWhile_le)
    moreover from t have "2 \<le> length s" by (cases s; cases "tl s") auto
    ultimately show ?thesis using r by simp
  qed
  show ?thesis
    by (relation "measure (\<lambda>(template, data). length template)") (auto dest: shorter)
qed

declare applyTemplate.simps [simp del]

definition getPlaceholders :: "string list \<Rightarrow> string list" where
  "getPlaceholders hdrs = map (\<lambda>h. ''<<'' @ h @ ''>>'') hdrs"

section \<open>markdown: inline styles\<close>

record TextSegment =
  "text" :: string
  bold :: bool
  italic :: bool
  underline :: bool
  newline :: bool

text \<open>\<open>text.split('\n')\<close>.\<close>

fun splitNewlineFrom :: "string \<Rightarrow> string \<Rightarrow> string list" where
  "splitNewlineFrom cur [] = [cur]"
| "splitNewlineFrom cur (c # rest) =
     (if c = LF then cur # splitNewlineFrom [] rest else splitNewlineFrom (cur @ [c]) rest)"

definition splitNewline :: "string \<Rightarrow> string list" where
  "splitNewline s = splitNewlineFrom [] s"

text \<open>\<open>if (buffer) { segments.push({...}); }\<close>: an empty buffer is falsy and pushes
  nothing.\<close>

definition flush :: "string \<Rightarrow> bool \<Rightarrow> bool \<Rightarrow> bool \<Rightarrow> TextSegment list \<Rightarrow> TextSegment list" where
  "flush buffer currentBold currentItalic currentUnderline segments =
     (if buffer \<noteq> [] then
        segments @ [\<lparr>text = buffer, bold = currentBold, italic = currentItalic,
                      underline = currentUnderline, newline = False\<rparr>]
      else segments)"

text \<open>
  The \<open>while\<close> loop over one line. The list is \<open>remaining\<close> from index \<open>i\<close> on: its head is
  \<open>char\<close>, the head of its tail is \<open>nextChar\<close> (\<open>None\<close> for \<open>undefined\<close> past the end), and
  \<open>prevChar\<close> is \<open>remaining[i - 1]\<close> (\<open>None\<close> at \<open>i = 0\<close>). \<open>i += 2\<close> drops two characters.
  On return the buffer left by the loop has been flushed, as the statement after the loop
  does.
\<close>

fun scanLine :: "char option \<Rightarrow> string \<Rightarrow> string \<Rightarrow> bool \<Rightarrow> bool \<Rightarrow> bool \<Rightarrow>
    TextSegment list \<Rightarrow> TextSegment list" where
  "scanLine prevChar [] buffer currentBold currentItalic currentUnderline segments =
     flush buffer currentBold currentItalic currentUnderline segments"
| "scanLine prevChar (char # rest) buffer currentBold currentItalic currentUnderline segments =
     (let nextChar = (case rest of [] \<Rightarrow> None | n # _ \<Rightarrow> Some n)
      in if (char = CHR ''*'' \<and> nextChar = Some (CHR ''*'')) \<or>
            (char = CHR ''_'' \<and> nextChar = Some (CHR ''_'')) then
           scanLine nextChar (tl rest) [] (\<not> currentBold) currentItalic currentUnderline
             (flush buffer currentBold currentItalic currentUnderline segments)
         else if ((char = CHR ''*'' \<and> nextChar \<noteq> Some (CHR ''*'')) \<or>
                  (char = CHR ''_'' \<and> nextChar \<noteq> Some (CHR ''_''))) \<and>
                 prevChar \<noteq> Some BACKSLASH then
           scanLine (Some char) rest [] currentBold (\<not> currentItalic) currentUnderline
             (flush buffer currentBold currentItalic currentUnderline segments)
         else if char = CHR ''~'' \<and> nextChar = Some (CHR ''~'') then
           scanLine nextChar (tl rest) [] currentBold currentItalic (\<not> currentUnderline)
             (flush buffer currentBold currentItalic currentUnderline segments)
         else
           scanLine (Some char) rest (buffer @ [char]) currentBold currentItalic
             currentUnderline segments)"

definition lineBreak :: TextSegment where
  "lineBreak = \<lparr>text = [], bold = False, italic = False, underline = False, newline = True\<rparr>"

text \<open>The \<open>for\<close> loop over the lines: a line-break segment before every line but the first,
  then the line scanned with a fresh buffer and all three styles off.\<close>

fun linesLoop :: "nat \<Rightarrow> string list \<Rightarrow> TextSegment list \<Rightarrow> TextSegment list" where
  "linesLoop lineIndex [] segments = segments"
| "linesLoop lineIndex (line # ls) segments =
     linesLoop (lineIndex + 1) ls
       (scanLine None line [] False False False
          (if lineIndex > 0 then segments @ [lineBreak] else segments))"

definition parseMarkdownToSegments :: "string \<Rightarrow> TextSegment list" where
  "parseMarkdownToSegments txt = linesLoop 0 (splitNewline txt) []"

section \<open>pdf-generator: wrapping\<close>

definition getFontName :: "bool \<Rightarrow> bool \<Rightarrow> string" where
  "getFontName b i =
     (if b \<and> i then ''Helvetica-BoldOblique''
      else if b then ''Helvetica-Bold''
      else if i then ''Helvetica-Oblique''
      else ''Helvetica'')"

text \<open>
  \<open>segment.text.split(/(\s+)/)\<close>: the pieces between maximal runs of white space and, since
  the pattern has a group, the runs themselves, alternating; a run at either end of the text
  leaves an empty piece there.
\<close>

function splitWhitespace :: "string \<Rightarrow> string list" where
  "splitWhitespace s =
     (let word = takeWhile (\<lambda>c. \<not> isWhitespace c) s;
          rest = dropWhile (\<lambda>c. \<not> isWhitespace c) s
      in if rest = [] then [word]
         else word # takeWhile isWhitespace rest # splitWhitespace (dropWhile isWhitespace rest))"
  by pat_completeness auto
termination
proof (relation "measure length")
  fix s word rest
  assume r: "rest = dropWhile (\<lambda>c. \<not> isWhitespace c) s" and ne: "rest \<noteq> []"
  have "length (dropWhile isWhitespace rest) < length rest"
  proof -
    from r ne have "isWhitespace (hd rest)"
      using hd_dropWhile [of "\<lambda>c. \<not> isWhitespace c" s] by simp
    with ne have "dropWhile isWhitespace rest = dropWhile isWhitespace (tl rest)"
      by (cases rest) simp_all
    moreover have "length (dropWhile isWhitespace (tl rest)) \<le> length (tl rest)"
      by (rule length_dropWhile_le)
    ultimately show ?thesis using ne by (cases rest) simp_all
  qed
  moreover have "length rest \<le> length s"
    unfolding r by (rule length_dropWhile_le)
  ultimately show "(dropWhile isWhitespace rest, s) \<in> measure length"
    by simp
qed simp

declare splitWhitespace.simps [simp del]

subsection \<open>Numbers\<close>

text \<open>
  The numbers of the source are IEEE 754 doubles. A finite double is the real number it
  stands for: \<open>m * 2 ^ e\<close> with a whole \<open>m\<close> of less than 53 bits and \<open>- 1074 \<le> e \<le> 971\<close>. The
  width that \<open>splitIntoLines\<close> accumulates starts at 0 and has finite widths added to it, so
  it is a finite double or an infinity, never \<open>NaN\<close>.
\<close>

datatype double = Num real | PlusInfinity | MinusInfinity

text \<open>
  The exponent of the unit in the last place of a positive number \<open>x\<close>: the least \<open>e\<close> from
  \<open>- 1074\<close> on with \<open>x < 2 ^ (e + 53)\<close>, at most 971. It is searched from 0, downwards and then
  upwards.
\<close>

function expDown :: "real \<Rightarrow> int \<Rightarrow> int" where
  "expDown x e = (if - 1074 < e \<and> x < 2 powi (e + 52) then expDown x (e - 1) else e)"
  by pat_completeness auto
termination
  by (relation "measure (\<lambda>(x, e). nat (e + 1074))") auto

declare expDown.simps [simp del]

function expUp :: "real \<Rightarrow> int \<Rightarrow> int" where
  "expUp x e = (if e < 971 \<and> 2 powi (e + 53) \<le> x then expUp x (e + 1) else e)"
  by pat_completeness auto
termination
  by (relation "measure (\<lambda>(x, e). nat (971 - e))") auto

declare expUp.simps [simp del]

definition ulpExponent :: "real \<Rightarrow> int" where
  "ulpExponent x = expUp x (expDown x 0)"

text \<open>Rounding to the nearest whole number, a tie to the even one.\<close>

definition roundHalfEven :: "real \<Rightarrow> int" where
  "roundHalfEven y =
     (let f = \<lfloor>y\<rfloor>; d = y - of_int f
      in if d < 1 / 2 then f else if 1 / 2 < d then f + 1 else if even f then f else f + 1)"

text \<open>
  The double nearest to a real number, a tie to the even significand; a result of
  \<open>2 ^ 1024\<close> or more is an infinity. This is how the exact result of an operation on doubles
  is rounded.
\<close>

definition roundDouble :: "real \<Rightarrow> double" where
  "roundDouble x =
     (if x = 0 then Num 0
      else
        let e = ulpExponent \<bar>x\<bar>;
            m = roundHalfEven (\<bar>x\<bar> / 2 powi e)
        in if e = 971 \<and> 2 ^ 53 \<le> m then (if 0 < x then PlusInfinity else MinusInfinity)
           else Num (sgn x * of_int m * 2 powi e))"

definition isDouble :: "real \<Rightarrow> bool" where
  "isDouble x = (roundDouble x = Num x)"

text \<open>\<open>currentWidth + wordWidth\<close>, for a finite \<open>wordWidth\<close>.\<close>

definition addDouble :: "double \<Rightarrow> real \<Rightarrow> double" where
  "addDouble a w =
     (case a of
        Num x \<Rightarrow> roundDouble (x + w)
      | PlusInfinity \<Rightarrow> PlusInfinity
      | MinusInfinity \<Rightarrow> MinusInfinity)"

text \<open>\<open>a > maxWidth\<close>, for a finite \<open>maxWidth\<close>.\<close>

definition exceeds :: "double \<Rightarrow> real \<Rightarrow> bool" where
  "exceeds a maxWidth =
     (case a of Num x \<Rightarrow> maxWidth < x | PlusInfinity \<Rightarrow> True | MinusInfinity \<Rightarrow> False)"

subsection \<open>Splitting into lines\<close>

text \<open>
  The text-metrics provider is a parameter: \<open>widthOfString font fontSize word\<close> is what
  \<open>doc.font(font).fontSize(fontSize)\<close> followed by \<open>doc.widthOfString(word)\<close> returns, a finite
  number. The maximum width is a finite number too.
\<close>

type_synonym metrics = "string \<Rightarrow> real \<Rightarrow> string \<Rightarrow> real"

text \<open>The state of \<open>splitIntoLines\<close>: \<open>lines\<close>, \<open>currentLine\<close> and \<open>currentWidth\<close>.\<close>

type_synonym wrapState = "TextSegment list list \<times> TextSegment list \<times> double"

text \<open>The body of the loop over the words of one segment.\<close>

definition placeWord :: "metrics \<Rightarrow> real \<Rightarrow> real \<Rightarrow> TextSegment \<Rightarrow> string \<Rightarrow> wrapState \<Rightarrow> wrapState" where
  "placeWord widthOfString maxWidth fontSize segment word st =
     (if word = [] then st
      else
        let (lines, currentLine, currentWidth) = st;
            wordWidth = widthOfString (getFontName (bold segment) (italic segment)) fontSize word;
            (lines, currentLine, currentWidth) =
              (if exceeds (addDouble currentWidth wordWidth) maxWidth \<and> length currentLine > 0
               then (lines @ [currentLine], [], Num 0)
               else (lines, currentLine, currentWidth))
        in if length currentLine = 0 \<and> trim word = [] then (lines, currentLine, currentWidth)
           else (lines,
                 currentLine @ [\<lparr>text = word, bold = bold segment, italic = italic segment,
                                  underline = underline segment, newline = False\<rparr>],
                 addDouble currentWidth wordWidth))"

fun wordLoop :: "metrics \<Rightarrow> real \<Rightarrow> real \<Rightarrow> TextSegment \<Rightarrow> string list \<Rightarrow> wrapState \<Rightarrow> wrapState" where
  "wordLoop widthOfString maxWidth fontSize segment [] st = st"
| "wordLoop widthOfString maxWidth fontSize segment (word # ws) st =
     wordLoop widthOfString maxWidth fontSize segment ws
       (placeWord widthOfString maxWidth fontSize segment word st)"

text \<open>The body of the loop over the segments.\<close>

definition placeSegment :: "metrics \<Rightarrow> real \<Rightarrow> real \<Rightarrow> TextSegment \<Rightarrow> wrapState \<Rightarrow> wrapState" where
  "placeSegment widthOfString maxWidth fontSize segment st =
     (if newline segment then
        (let (lines, currentLine, currentWidth) = st
         in ((if length currentLine > 0 then lines @ [currentLine] else lines), [], Num 0))
      else wordLoop widthOfString maxWidth fontSize segment (splitWhitespace (text segment)) st)"

fun segmentLoop :: "metrics \<Rightarrow> real \<Rightarrow> real \<Rightarrow> TextSegment list \<Rightarrow> wrapState \<Rightarrow> wrapState" where
  "segmentLoop widthOfString maxWidth fontSize [] st = st"
| "segmentLoop widthOfString maxWidth fontSize (segment # segs) st =
     segmentLoop widthOfString maxWidth fontSize segs
       (placeSegment widthOfString maxWidth fontSize segment st)"

definition splitIntoLines :: "TextSegment list \<Rightarrow> metrics \<Rightarrow> real \<Rightarrow> real \<Rightarrow> TextSegment list list" where
  "splitIntoLines segments widthOfString maxWidth fontSize =
     (let (lines, currentLine, currentWidth) =
            segmentLoop widthOfString maxWidth fontSize segments ([], [], Num 0)
      in if length currentLine > 0 then lines @ [currentLine] else lines)"

text \<open>
  The width of a line as \<open>renderLabelContent\<close> adds it up for the alignment: \<open>lineWidth\<close>
  starts at 0 and the width of each fragment, measured in the font of its own style, is
  added to it from left to right.
\<close>

definition fragmentWidth :: "metrics \<Rightarrow> real \<Rightarrow> TextSegment \<Rightarrow> real" where
  "fragmentWidth widthOfString fontSize segment =
     widthOfString (getFontName (bold segment) (italic segment)) fontSize (text segment)"

definition lineWidth :: "metrics \<Rightarrow> real \<Rightarrow> TextSegment list \<Rightarrow> double" where
  "lineWidth widthOfString fontSize line =
     foldl (\<lambda>acc segment. addDouble acc (fragmentWidth widthOfString fontSize segment)) (Num 0) line"

section \<open>pdf-generator: pagination\<close>

text \<open>
  Modelled from the spec: the type \<open>PaperFormat\<close> (its declaration is in the module
  \<open>paper-formats\<close>, which \<open>generatePDF\<close> imports), with the fields the data model lists.
  The grid counts \<open>columns\<close> and \<open>rows\<close> are natural numbers, the lengths are real numbers
  of points.
\<close>

record PaperFormat =
  id :: string
  name :: string
  description :: string
  pageWidth :: real
  pageHeight :: real
  columns :: nat
  rows :: nat
  labelWidth :: real
  labelHeight :: real
  marginLeft :: real
  marginTop :: real
  horizontalGap :: real
  verticalGap :: real

text \<open>
  What \<open>generatePDF\<close> does to the document is recorded as a trace: the number of calls of
  \<open>doc.addPage()\<close> and, in drawing order, one entry for each label box with the values of
  \<open>page\<close>, \<open>row\<close>, \<open>col\<close>, \<open>dataIndex\<close>, \<open>x\<close> and \<open>y\<close> at which the record's border and
  content are drawn.
\<close>

record Placement =
  onPage :: nat
  inRow :: nat
  inCol :: nat
  ofRecord :: nat
  atX :: real
  atY :: real

record Trace =
  pagesAdded :: nat
  placements :: "Placement list"

text \<open>
  The loop over \<open>col\<close>. \<open>break\<close> leaves it at the first index past the data. Every element
  of \<open>data\<close> is an object, hence truthy, so \<open>if (!record) continue\<close> never skips.
\<close>

function colLoop :: "PaperFormat \<Rightarrow> nat \<Rightarrow> nat \<Rightarrow> nat \<Rightarrow> nat \<Rightarrow> nat \<Rightarrow> Placement list \<Rightarrow> Placement list" where
  "colLoop format dataLength page startIndex row col drawn =
     (if col < columns format then
        (let dataIndex = startIndex + row * columns format + col
         in if dataIndex \<ge> dataLength then drawn
            else
              colLoop format dataLength page startIndex row (col + 1)
                (drawn @
                 [\<lparr>onPage = page, inRow = row, inCol = col, ofRecord = dataIndex,
                   atX = marginLeft format + real col * (labelWidth format + horizontalGap format),
                   atY = marginTop format + real row * (labelHeight format + verticalGap format)\<rparr>]))
      else drawn)"
  by pat_completeness auto
termination
  by (relation "measure (\<lambda>(format, dataLength, page, startIndex, row, col, drawn). columns format - col)")
     auto

declare colLoop.simps [simp del]

text \<open>The loop over \<open>row\<close>; a \<open>break\<close> in the inner loop does not leave it.\<close>

function rowLoop :: "PaperFormat \<Rightarrow> nat \<Rightarrow> nat \<Rightarrow> nat \<Rightarrow> nat \<Rightarrow> Placement list \<Rightarrow> Placement list" where
  "rowLoop format dataLength page startIndex row drawn =
     (if row < rows format then
        rowLoop format dataLength page startIndex (row + 1)
          (colLoop format dataLength page startIndex row 0 drawn)
      else drawn)"
  by pat_completeness auto
termination
  by (relation "measure (\<lambda>(format, dataLength, page, startIndex, row, drawn). rows format - row)")
     auto

declare rowLoop.simps [simp del]

text \<open>
  \<open>Math.ceil(data.length / labelsPerPage)\<close> for two natural numbers: the quotient by zero is
  \<open>NaN\<close> for \<open>0 / 0\<close> and \<open>Infinity\<close> otherwise, and \<open>Math.ceil\<close> keeps both.
\<close>

datatype jsnumber = Finite nat | Infinity | NaN

definition ceilDiv :: "nat \<Rightarrow> nat \<Rightarrow> jsnumber" where
  "ceilDiv n d =
     (if d = 0 then (if n = 0 then NaN else Infinity)
      else Finite (nat \<lceil>real n / real d\<rceil>))"

text \<open>\<open>page < totalPages\<close>: every comparison with \<open>NaN\<close> is false.\<close>

definition numLess :: "nat \<Rightarrow> jsnumber \<Rightarrow> bool" where
  "numLess page totalPages =
     (case totalPages of Finite t \<Rightarrow> page < t | Infinity \<Rightarrow> True | NaN \<Rightarrow> False)"

text \<open>The loop over \<open>page\<close>. With \<open>totalPages = Infinity\<close> it does not end: the result is
  \<open>None\<close>.\<close>

partial_function (option) pageLoop ::
    "PaperFormat \<Rightarrow> nat \<Rightarrow> nat \<Rightarrow> jsnumber \<Rightarrow> nat \<Rightarrow> Trace \<Rightarrow> Trace option" where
  "pageLoop format dataLength labelsPerPage totalPages page trace =
     (if numLess page totalPages then
        (let startIndex = page * labelsPerPage
         in pageLoop format dataLength labelsPerPage totalPages (page + 1)
              \<lparr>pagesAdded = pagesAdded trace + 1,
               placements = rowLoop format dataLength page startIndex 0 (placements trace)\<rparr>)
      else Some trace)"

definition generatePDF :: "PaperFormat \<Rightarrow> row list \<Rightarrow> Trace option" where
  "generatePDF format data =
     (let labelsPerPage = columns format * rows format;
          totalPages = ceilDiv (length data) labelsPerPage
      in pageLoop format (length data) labelsPerPage totalPages 0 \<lparr>pagesAdded = 0, placements = []\<rparr>)"

section \<open>Notions used to state the properties\<close>

text \<open>A field written as a quoted string: the value between two double quotes, each double
  quote of the value doubled.\<close>

definition escapeQuotes :: "string \<Rightarrow> string" where
  "escapeQuotes v = concat (map (\<lambda>c. if c = DQUOTE then [DQUOTE, DQUOTE] else [c]) v)"

definition quoteField :: "string \<Rightarrow> string" where
  "quoteField v = DQUOTE # escapeQuotes v @ [DQUOTE]"

fun joinFields :: "string \<Rightarrow> string list \<Rightarrow> string" where
  "joinFields sep [] = []"
| "joinFields sep [f] = f"
| "joinFields sep (f # g # fs) = f @ sep @ joinFields sep (g # fs)"

text \<open>The placement the specification gives to the record at position \<open>i\<close>.\<close>

definition specPlacement :: "PaperFormat \<Rightarrow> nat \<Rightarrow> Placement" where
  "specPlacement format i =
     (let labelsPerPage = columns format * rows format;
          withinPage = i mod labelsPerPage;
          row = withinPage div columns format;
          column = withinPage mod columns format
      in \<lparr>onPage = i div labelsPerPage, inRow = row, inCol = column, ofRecord = i,
          atX = marginLeft format + real column * (labelWidth format + horizontalGap format),
          atY = marginTop format + real row * (labelHeight format + verticalGap format)\<rparr>)"

text \<open>A character that is no style marker and no line feed.\<close>

definition plainChar :: "char \<Rightarrow> bool" where
  "plainChar c = (c \<noteq> CHR ''*'' \<and> c \<noteq> CHR ''_'' \<and> c \<noteq> CHR ''~'' \<and> c \<noteq> LF)"

text \<open>A wrapped line that respects the width: it has a fragment, its first fragment is not
  white space only, and its width is a finite number, not above the maximum unless the line
  is a single fragment.\<close>

definition fitsLine :: "metrics \<Rightarrow> real \<Rightarrow> real \<Rightarrow> TextSegment list \<Rightarrow> bool" where
  "fitsLine widthOfString maxWidth fontSize line =
     (line \<noteq> [] \<and> trim (text (hd line)) \<noteq> [] \<and>
      (case lineWidth widthOfString fontSize line of
         Num s \<Rightarrow> s \<le> maxWidth \<or> (length line = 1 \<and> maxWidth < s)
       | PlusInfinity \<Rightarrow> False
       | MinusInfinity \<Rightarrow> False))"

text \<open>The invariant of the state of \<open>splitIntoLines\<close>: the closed lines respect the width,
  \<open>currentWidth\<close> is the width of \<open>currentLine\<close>, and \<open>currentLine\<close> is empty or respects the
  width.\<close>

definition wrapInv :: "metrics \<Rightarrow> real \<Rightarrow> real \<Rightarrow> wrapState \<Rightarrow> bool" where
  "wrapInv w maxWidth fontSize st =
     (case st of (lines, currentLine, currentWidth) \<Rightarrow>
        list_all (fitsLine w maxWidth fontSize) lines \<and>
        currentWidth = lineWidth w fontSize currentLine \<and>
        (currentLine = [] \<or> fitsLine w maxWidth fontSize currentLine))"

text \<open>The entry that \<open>generatePDF\<close> records when it draws the record \<open>dataIndex\<close> at \<open>row\<close> and
  \<open>col\<close> of \<open>page\<close>.\<close>

definition drawAt :: "PaperFormat \<Rightarrow> nat \<Rightarrow> nat \<Rightarrow> nat \<Rightarrow> nat \<Rightarrow> Placement" where
  "drawAt format page row col dataIndex =
     \<lparr>onPage = page, inRow = row, inCol = col, ofRecord = dataIndex,
      atX = marginLeft format + real col * (labelWidth format + horizontalGap format),
      atY = marginTop format + real row * (labelHeight format + verticalGap format)\<rparr>"

text \<open>A format with the grid of the specification's example, 2 columns and 3 rows.\<close>

definition sampleFormat :: PaperFormat where
  "sampleFormat =
     \<lparr>id = ''sample'', name = ''Sample'', description = ''2 x 3'',
      pageWidth = 612, pageHeight = 792, columns = 2, rows = 3,
      labelWidth = 288, labelHeight = 240, marginLeft = 13.5, marginTop = 36,
      horizontalGap = 9, verticalGap = 0\<rparr>"

text \<open>A template without a match of the placeholder pattern at any position.\<close>

fun noPlaceholder :: "string \<Rightarrow> bool" where
  "noPlaceholder [] = True"
| "noPlaceholder (c # cs) = (matchPlaceholder (c # cs) = None \<and> noPlaceholder cs)"





section \<open>Properties of the delimited-text parser\<close>

text \<open>
  C1. Claimed: every record of the dataset returned by \<open>parseCSV\<close> has as many fields as
  there are headers. On the two-line input \<open>City,City,City2\<close> / \<open>a,b,c\<close> the header row is
  recognised, the pass for unique headers renames the second \<open>City\<close> to \<open>City2\<close>, which is
  also the third header, and the record built from \<open>a,b,c\<close> has two fields for three
  headers: the assignment for the third header overwrites the value stored for the second.
\<close>

theorem parseCSV_record_narrower_than_headers:
  "parseCSV (''City,City,City2'' @ [LF] @ ''a,b,c'') =
     \<lparr>headers = [''City'', ''City2'', ''City2''],
      rows = [[(''City'', ''a''), (''City2'', ''c'')]],
      hasHeaders = True\<rparr>"
  by code_simp

text \<open>
  C2. Claimed: no two headers of the dataset returned by \<open>parseCSV\<close> are equal. The suffix
  given to a repeated name is not checked against the other names: for the header row
  \<open>City,City,City2\<close> the result has \<open>City2\<close> twice.
\<close>

theorem parseCSV_headers_not_distinct:
  "headers (parseCSV ''City,City,City2'') = [''City'', ''City2'', ''City2''] \<and>
   \<not> distinct (headers (parseCSV ''City,City,City2''))"
  by code_simp

text \<open>
  What does hold of the records: every record has a value for every header and no other
  field, so it has as many fields as there are different headers; when the headers are
  distinct, its fields are those of the line in the order of the headers, cut to the number
  of headers and filled up with empty strings.
\<close>

lemma fold_update_keys:
  "fst ` set (fold (\<lambda>j row. AList.update (key j) (val j) row) js al) = key ` set js \<union> fst ` set al"
  by (induction js arbitrary: al) (auto simp: dom_update)

lemma fold_update_distinct:
  "distinct (map fst al) \<Longrightarrow>
   distinct (map fst (fold (\<lambda>j row. AList.update (key j) (val j) row) js al))"
  by (induction js arbitrary: al) (simp_all add: distinct_update)

lemma buildRow_keys:
  "fst ` set (buildRow hdrs flds) = set hdrs \<and> distinct (map fst (buildRow hdrs flds))"
proof -
  have "(\<lambda>j. hdrs ! j) ` set [0..<length hdrs] = set (map (\<lambda>j. hdrs ! j) [0..<length hdrs])"
    by simp
  also have "\<dots> = set hdrs" by (simp only: map_nth)
  finally have "(\<lambda>j. hdrs ! j) ` set [0..<length hdrs] = set hdrs" .
  then show ?thesis
    unfolding buildRow_def by (simp add: fold_update_keys fold_update_distinct)
qed

lemma buildRow_length: "length (buildRow hdrs flds) = card (set hdrs)"
proof -
  have "length (buildRow hdrs flds) = length (map fst (buildRow hdrs flds))" by simp
  also have "\<dots> = card (set (map fst (buildRow hdrs flds)))"
    using buildRow_keys [of hdrs flds] by (simp only: distinct_card)
  also have "\<dots> = card (set hdrs)"
    using buildRow_keys [of hdrs flds] by simp
  finally show ?thesis .
qed

lemma update_fresh:
  "k \<notin> fst ` set al \<Longrightarrow> AList.update k v al = al @ [(k, v)]"
  by (induction al) auto

lemma fold_update_fresh:
  assumes "distinct hdrs" and "k \<le> length hdrs"
  shows "fold (\<lambda>j row. AList.update (hdrs ! j) (val j) row) [0..<k] [] =
         map (\<lambda>j. (hdrs ! j, val j)) [0..<k]"
  using assms(2)
proof (induction k)
  case 0
  then show ?case by simp
next
  case (Suc k)
  have "hdrs ! k \<notin> fst ` set (map (\<lambda>j. (hdrs ! j, val j)) [0..<k])"
    using assms(1) Suc.prems by (auto simp: nth_eq_iff_index_eq)
  then show ?case using Suc by (simp add: update_fresh)
qed

lemma buildRow_distinct:
  assumes "distinct hdrs"
  shows "map fst (buildRow hdrs flds) = hdrs \<and>
         map snd (buildRow hdrs flds) = take (length hdrs) (flds @ replicate (length hdrs) [])"
proof -
  have row: "buildRow hdrs flds =
      map (\<lambda>j. (hdrs ! j, if j < length flds then flds ! j else [])) [0..<length hdrs]"
    unfolding buildRow_def using assms by (intro fold_update_fresh) simp_all
  have "map fst (buildRow hdrs flds) = hdrs"
    unfolding row by (simp add: comp_def map_nth)
  moreover have "map snd (buildRow hdrs flds) = take (length hdrs) (flds @ replicate (length hdrs) [])"
    unfolding row by (rule nth_equalityI) (auto simp: nth_append)
  ultimately show ?thesis by simp
qed

lemma parseCSV_rows_cover_headers:
  assumes "row \<in> set (ParsedData.rows (parseCSV txt))"
  shows "fst ` set row = set (headers (parseCSV txt)) \<and>
         length row = card (set (headers (parseCSV txt)))"
  using assms buildRow_keys buildRow_length
  by (auto simp: parseCSV_def Let_def split: if_splits)

lemma parseCSV_rectangular_if_distinct:
  assumes "row \<in> set (ParsedData.rows (parseCSV txt))" and "distinct (headers (parseCSV txt))"
  shows "map fst row = headers (parseCSV txt)"
  using assms buildRow_distinct
  by (auto simp: parseCSV_def Let_def split: if_splits)

text \<open>
  What does hold of the headers: a name is kept when it did not occur before in the row, and
  gets its count of occurrences so far as a suffix when it did.
\<close>

lemma uniqueHeaders_nth:
  "i < length hs \<Longrightarrow>
   uniqueHeaders headerCounts hs ! i =
     (let count = (case headerCounts (hs ! i) of None \<Rightarrow> 0 | Some c \<Rightarrow> c) +
                  count_list (take i hs) (hs ! i)
      in if count > 0 then hs ! i @ numberToString (count + 1) else hs ! i)"
proof (induction hs arbitrary: headerCounts i)
  case Nil
  then show ?case by simp
next
  case (Cons h hs)
  show ?case
  proof (cases i)
    case 0
    then show ?thesis by (simp add: Let_def)
  next
    case (Suc j)
    then have "j < length hs" using Cons.prems by simp
    from Cons.IH [OF this] Suc show ?thesis
      by (auto simp: Let_def split: option.splits)
  qed
qed

lemma uniqueHeaders_length: "length (uniqueHeaders headerCounts hs) = length hs"
  by (induction hs arbitrary: headerCounts) (simp_all add: Let_def)

text \<open>
  C7. Claimed: the delimiter is chosen by counting tabs and commas in the first line that is
  not empty after trimming. \<open>detectDelimiter\<close> counts in the first line of the raw text,
  whereas \<open>parseCSV\<close> takes its first row from the first line that is not blank: after an
  empty first line, tab-separated data is split at commas, here into a single column.
\<close>

theorem detectDelimiter_counts_in_blank_first_line:
  "detectDelimiter ([LF] @ ''Name'' @ [TAB] @ ''City'') = '','' \<and>
   parseCSV ([LF] @ ''Name'' @ [TAB] @ ''City'') =
     \<lparr>headers = [''Column1''],
      rows = [[(''Column1'', ''Name'' @ [TAB] @ ''City'')]],
      hasHeaders = False\<rparr>"
  by code_simp

subsection \<open>Quoted fields\<close>

lemma parseLineLoop_quoted_body:
  "rest = [] \<or> hd rest \<noteq> DQUOTE \<Longrightarrow>
   parseLineLoop d (escapeQuotes v @ DQUOTE # rest) True cur fs =
   parseLineLoop d rest False (cur @ v) fs"
proof (induction v arbitrary: cur)
  case Nil
  then show ?case by (auto simp: escapeQuotes_def)
next
  case (Cons c v)
  have IH: "parseLineLoop d (escapeQuotes v @ DQUOTE # rest) True cur' fs =
      parseLineLoop d rest False (cur' @ v) fs" for cur'
    using Cons by simp
  show ?case
  proof (cases "c = DQUOTE")
    case True
    then show ?thesis using IH [of "cur @ [DQUOTE]"] by (simp add: escapeQuotes_def)
  next
    case False
    then show ?thesis using IH [of "cur @ [c]"] by (simp add: escapeQuotes_def)
  qed
qed

lemma parseLineLoop_quoteField:
  "rest = [] \<or> hd rest \<noteq> DQUOTE \<Longrightarrow>
   parseLineLoop d (quoteField v @ rest) False cur fs =
   parseLineLoop d rest False (cur @ v) fs"
  using parseLineLoop_quoted_body [of rest d v cur fs] by (simp add: quoteField_def)

lemma parseLineLoop_joined:
  "vs \<noteq> [] \<Longrightarrow> c \<noteq> DQUOTE \<Longrightarrow>
   parseLineLoop [c] (joinFields [c] (map quoteField vs)) False [] fs = fs @ map trim vs"
proof (induction vs arbitrary: fs)
  case Nil
  then show ?case by simp
next
  case (Cons f ws)
  show ?case
  proof (cases ws)
    case Nil
    then show ?thesis using parseLineLoop_quoteField [of "[]" "[c]" f "[]" fs] by simp
  next
    case (Cons g fs')
    let ?tail = "joinFields [c] (map quoteField ws)"
    have "parseLineLoop [c] (quoteField f @ c # ?tail) False [] fs
        = parseLineLoop [c] (c # ?tail) False ([] @ f) fs"
      using \<open>c \<noteq> DQUOTE\<close> by (intro parseLineLoop_quoteField) simp
    also have "\<dots> = parseLineLoop [c] ?tail False [] (fs @ [trim f])"
      using \<open>c \<noteq> DQUOTE\<close> by simp
    also have "\<dots> = (fs @ [trim f]) @ map trim ws"
      using Cons.IH [of "fs @ [trim f]"] Cons.prems(2) \<open>ws = g # fs'\<close> by simp
    finally show ?thesis using \<open>ws = g # fs'\<close> by simp
  qed
qed

text \<open>
  C8, as claimed: a field written as a quoted string retains its leading and trailing white
  space in the returned value. It does not: the quoted field \<open>" a "\<close> is returned as \<open>a\<close>,
  because every field is trimmed when it is pushed, whether or not it was quoted.
\<close>

theorem parseLine_trims_quoted_field:
  "parseLine ([DQUOTE] @ '' a '' @ [DQUOTE]) '','' = [''a'']"
  by code_simp

lemma parseLineLoop_unterminated:
  "parseLineLoop d (escapeQuotes v) True cur fs = fs @ [trim (cur @ v)]"
proof (induction v arbitrary: cur)
  case Nil
  then show ?case by (simp add: escapeQuotes_def)
next
  case (Cons c v)
  have IH: "parseLineLoop d (escapeQuotes v) True cur' fs = fs @ [trim (cur' @ v)]" for cur'
    using Cons by simp
  show ?case
  proof (cases "c = DQUOTE")
    case True
    then show ?thesis using IH [of "cur @ [DQUOTE]"] by (simp add: escapeQuotes_def)
  next
    case False
    then show ?thesis using IH [of "cur @ [c]"] by (simp add: escapeQuotes_def)
  qed
qed

text \<open>
  C8, amended: for every line, delimiter and state of the tokenizer, inside quotes a doubled
  quote yields one quote and stays quoted, a single quote ends the quoted section, and every
  other character, delimiters and white space included, is taken over unescaped: text \<open>v\<close>
  written with its quotes doubled and followed by a single quote adds \<open>v\<close> to the field and
  leaves the tokenizer unquoted at what follows, whatever follows; without the closing quote
  the end of the line ends the field. The returned field is the text so collected with the
  white space at its two ends trimmed: so it is at a delimiter after the quoted section, and
  a line of quoted fields is returned as their values, each trimmed.
\<close>

theorem parseLine_quoted_section:
  assumes "rest = [] \<or> hd rest \<noteq> DQUOTE" and "c \<noteq> DQUOTE" and "vs \<noteq> []"
  shows "parseLineLoop d (escapeQuotes v @ DQUOTE # rest) True cur fs =
           parseLineLoop d rest False (cur @ v) fs \<and>
         parseLineLoop d (quoteField v @ rest) False cur fs =
           parseLineLoop d rest False (cur @ v) fs \<and>
         parseLineLoop d (escapeQuotes v) True cur fs = fs @ [trim (cur @ v)] \<and>
         parseLineLoop [c] (quoteField v @ c # rest') False cur fs =
           parseLineLoop [c] rest' False [] (fs @ [trim (cur @ v)]) \<and>
         parseLine (joinFields [c] (map quoteField vs)) [c] = map trim vs"
proof (intro conjI)
  show "parseLineLoop d (escapeQuotes v @ DQUOTE # rest) True cur fs =
      parseLineLoop d rest False (cur @ v) fs"
    using assms(1) by (rule parseLineLoop_quoted_body)
  show "parseLineLoop d (quoteField v @ rest) False cur fs =
      parseLineLoop d rest False (cur @ v) fs"
    using assms(1) by (rule parseLineLoop_quoteField)
  show "parseLineLoop d (escapeQuotes v) True cur fs = fs @ [trim (cur @ v)]"
    by (rule parseLineLoop_unterminated)
  have "parseLineLoop [c] (quoteField v @ c # rest') False cur fs =
      parseLineLoop [c] (c # rest') False (cur @ v) fs"
    using assms(2) by (intro parseLineLoop_quoteField) simp
  then show "parseLineLoop [c] (quoteField v @ c # rest') False cur fs =
      parseLineLoop [c] rest' False [] (fs @ [trim (cur @ v)])"
    using assms(2) by simp
  show "parseLine (joinFields [c] (map quoteField vs)) [c] = map trim vs"
    using parseLineLoop_joined [OF assms(3,2), of "[]"] by (simp add: parseLine_def)
qed

theorem parseLine_quoted_section_witness:
  "hd ''b,c'' \<noteq> DQUOTE \<and> CHR '','' \<noteq> DQUOTE \<and>
   parseLine ([DQUOTE] @ '' a,'' @ [DQUOTE, DQUOTE] @ '' '' @ [DQUOTE] @ ''b,c'') '','' =
     [''a,'' @ [DQUOTE] @ '' b'', ''c''] \<and>
   parseLine ([DQUOTE] @ '' a,b '' @ [DQUOTE] @ '','' @ [DQUOTE] @ ''x'' @ [DQUOTE, DQUOTE] @ '' '' @ [DQUOTE])
     '','' = [''a,b'', [CHR ''x'', DQUOTE]]"
proof -
  let ?v = "'' a,'' @ [DQUOTE] @ '' ''"
  let ?vs = "['' a,b '', [CHR ''x'', DQUOTE, CHR '' '']]"
  have h: "''b,c'' = [] \<or> hd ''b,c'' \<noteq> DQUOTE" "CHR '','' \<noteq> DQUOTE" "?vs \<noteq> []"
    by simp_all
  note t = parseLine_quoted_section [OF h, of "'',''" ?v "[]" "[]"]
  have "parseLineLoop '','' (quoteField ?v @ ''b,c'') False [] [] =
      parseLineLoop '','' ''b,c'' False ([] @ ?v) []"
    by (rule t [THEN conjunct2, THEN conjunct1])
  also have "\<dots> = [''a,'' @ [DQUOTE] @ '' b'', ''c'']"
    by code_simp
  finally have one: "parseLine ([DQUOTE] @ '' a,'' @ [DQUOTE, DQUOTE] @ '' '' @ [DQUOTE] @ ''b,c'') '','' =
      [''a,'' @ [DQUOTE] @ '' b'', ''c'']"
    by (simp add: parseLine_def quoteField_def escapeQuotes_def)
  have "parseLine (joinFields '','' (map quoteField ?vs)) '','' = map trim ?vs"
    by (rule t [THEN conjunct2, THEN conjunct2, THEN conjunct2, THEN conjunct2])
  then have two: "parseLine
      ([DQUOTE] @ '' a,b '' @ [DQUOTE] @ '','' @ [DQUOTE] @ ''x'' @ [DQUOTE, DQUOTE] @ '' '' @ [DQUOTE])
      '','' = [''a,b'', [CHR ''x'', DQUOTE]]"
    by (simp add: quoteField_def escapeQuotes_def trim_def isWhitespace_def)
  from h(1,2) one two show ?thesis by simp
qed

section \<open>Properties of the template substitution\<close>

text \<open>
  C6. Claimed: a token whose identifier matches no header is left in the output verbatim.
  The callback reads \<open>data[key.trim()]\<close> and falls back to the token only for \<open>undefined\<close> or
  \<open>null\<close>. A row is a plain object, so for an identifier that names a member of
  \<open>Object.prototype\<close> the read yields the inherited member, and the token is replaced by that
  value converted to a string, although no header has that name.
\<close>

theorem applyTemplate_inherited_property:
  "applyTemplate ''Dear <<toString>>'' [(''Name'', ''Bob'')] =
     ''Dear function toString() { [native code] }'' \<and>
   applyTemplate ''Dear <<__proto__>>'' [(''Name'', ''Bob'')] = ''Dear [object Object]''"
  by code_simp

text \<open>
  What does hold of \<open>applyTemplate\<close>: the text before the first \<open><\<close> is copied; a token
  \<open><<key>>\<close> is replaced by the value of the row's own property \<open>key.trim()\<close>, by the token
  itself when the row neither has nor inherits such a property, and the search goes on after
  the token, so that the inserted value is not scanned; a template in which the pattern
  matches nowhere is returned as it is.
\<close>

lemma matchPlaceholder_token:
  assumes "key \<noteq> []" and "CHR ''>'' \<notin> set key"
  shows "matchPlaceholder (''<<'' @ key @ ''>>'' @ post) = Some (key, post)"
proof -
  have "takeWhile (\<lambda>c. c \<noteq> CHR ''>'') (key @ ''>>'' @ post) = key"
    using assms(2) by (induction key) auto
  moreover have "dropWhile (\<lambda>c. c \<noteq> CHR ''>'') (key @ ''>>'' @ post) = ''>>'' @ post"
    using assms(2) by (induction key) auto
  ultimately show ?thesis using assms(1) by (simp add: matchPlaceholder_def)
qed

lemma matchPlaceholder_first_char:
  "c \<noteq> CHR ''<'' \<Longrightarrow> matchPlaceholder (c # cs) = None"
  by (cases cs) (simp_all add: matchPlaceholder_def)

lemma applyTemplate_copies_prefix:
  "CHR ''<'' \<notin> set pre \<Longrightarrow> applyTemplate (pre @ rest) data = pre @ applyTemplate rest data"
proof (induction pre)
  case Nil
  then show ?case by simp
next
  case (Cons c pre)
  then have "c \<noteq> CHR ''<''" by auto
  then have "matchPlaceholder (c # pre @ rest) = None"
    by (rule matchPlaceholder_first_char)
  then show ?case using Cons by (subst applyTemplate.simps) simp
qed

lemma applyTemplate_token:
  assumes "CHR ''<'' \<notin> set pre" and "key \<noteq> []" and "CHR ''>'' \<notin> set key"
  shows "applyTemplate (pre @ ''<<'' @ key @ ''>>'' @ post) data =
         pre @ replacement data key @ applyTemplate post data"
proof -
  have "applyTemplate (''<<'' @ key @ ''>>'' @ post) data = replacement data key @ applyTemplate post data"
    using matchPlaceholder_token [OF assms(2,3), of post]
    by (subst applyTemplate.simps) simp
  then show ?thesis using applyTemplate_copies_prefix [OF assms(1)] by simp
qed

lemma replacement_known:
  "map_of data (trim key) = Some v \<Longrightarrow> replacement data key = v"
  by (simp add: replacement_def getProperty_def valueToString_def)

lemma replacement_unknown:
  "getProperty data (trim key) = JUndefined \<Longrightarrow> replacement data key = ''<<'' @ key @ ''>>''"
  by (simp add: replacement_def)

lemma applyTemplate_noPlaceholder:
  "noPlaceholder template \<Longrightarrow> applyTemplate template data = template"
  by (induction template) (subst applyTemplate.simps, simp)+

section \<open>Properties of the inline-style segmenter\<close>


lemma splitNewlineFrom_one_line:
  "LF \<notin> set s \<Longrightarrow> splitNewlineFrom cur s = [cur @ s]"
  by (induction s arbitrary: cur) auto

lemma plain_no_line_feed: "list_all plainChar s \<Longrightarrow> LF \<notin> set s"
  by (induction s) (auto simp: plainChar_def)


lemma flush_prepend:
  "flush buffer b i u (pre @ segs) = pre @ flush buffer b i u segs"
  by (simp add: flush_def)

lemma scanLine_prepend:
  "scanLine prev l buffer b i u (pre @ segs) = pre @ scanLine prev l buffer b i u segs"
proof (induction l arbitrary: prev buffer b i u segs rule: length_induct)
  case (1 l)
  show ?case
  proof (cases l)
    case Nil
    then show ?thesis by (simp add: flush_prepend)
  next
    case (Cons c rest)
    have IH1: "scanLine p rest bf b' i' u' (pre @ sg) = pre @ scanLine p rest bf b' i' u' sg"
      for p bf b' i' u' sg
      using 1 Cons by simp
    have IH2: "scanLine p (tl rest) bf b' i' u' (pre @ sg) = pre @ scanLine p (tl rest) bf b' i' u' sg"
      for p bf b' i' u' sg
      using 1 Cons by simp
    show ?thesis
      unfolding Cons scanLine.simps Let_def flush_prepend IH1 IH2 by simp
  qed
qed






lemma scanLine_plain:
  "list_all plainChar s \<Longrightarrow> scanLine prev s buffer b i u segs = flush (buffer @ s) b i u segs"
proof (induction s arbitrary: prev buffer)
  case Nil
  then show ?case by simp
next
  case (Cons c s)
  then show ?case by (simp add: plainChar_def Let_def)
qed

lemma scanLine_plain_prefix:
  "list_all plainChar s \<Longrightarrow>
   \<exists>p. scanLine prev (s @ r) buffer b i u segs = scanLine p r (buffer @ s) b i u segs"
proof (induction s arbitrary: prev buffer)
  case Nil
  then show ?case by auto
next
  case (Cons c s)
  then obtain p where
    "scanLine (Some c) (s @ r) (buffer @ [c]) b i u segs = scanLine p r ((buffer @ [c]) @ s) b i u segs"
    by fastforce
  moreover have "scanLine prev ((c # s) @ r) buffer b i u segs =
      scanLine (Some c) (s @ r) (buffer @ [c]) b i u segs"
    using Cons.prems by (simp add: plainChar_def Let_def)
  ultimately show ?case by auto
qed

lemma scanLine_buffer:
  "buffer \<noteq> [] \<Longrightarrow> \<exists>t more. scanLine prev l buffer b i u segs =
     segs @ \<lparr>text = buffer @ t, bold = b, italic = i, underline = u, newline = False\<rparr> # more"
proof (induction l arbitrary: prev buffer rule: length_induct)
  case (1 l)
  note ne = \<open>buffer \<noteq> []\<close>
  define P where "P res \<longleftrightarrow> (\<exists>t more. res =
     segs @ \<lparr>text = buffer @ t, bold = b, italic = i, underline = u, newline = False\<rparr> # more)"
    for res
  show ?case
  proof (cases l)
    case Nil
    then show ?thesis using ne by (simp add: flush_def)
  next
    case (Cons c rest)
    let ?seg = "\<lparr>text = buffer, bold = b, italic = i, underline = u, newline = False\<rparr>"
    have fl: "flush buffer b i u segs = (segs @ [?seg]) @ []" using ne by (simp add: flush_def)
    have flushed: "P (scanLine p r [] b' i' u' (flush buffer b i u segs))" for p r b' i' u'
      unfolding fl scanLine_prepend P_def
      by (intro exI [of _ "[]"] exI [of _ "scanLine p r [] b' i' u' []"]) simp
    have kept: "P (scanLine (Some c) rest (buffer @ [c]) b i u segs)"
    proof -
      obtain t more where "scanLine (Some c) rest (buffer @ [c]) b i u segs =
        segs @ \<lparr>text = (buffer @ [c]) @ t, bold = b, italic = i, underline = u, newline = False\<rparr> # more"
        using 1(1) [rule_format, of rest "buffer @ [c]" "Some c"] Cons by auto
      then show ?thesis unfolding P_def by (intro exI [of _ "c # t"] exI [of _ more]) simp
    qed
    have "P (scanLine prev (c # rest) buffer b i u segs)"
      unfolding scanLine.simps Let_def using flushed kept by simp
    then show ?thesis unfolding P_def Cons .
  qed
qed

lemma escaped_marker_step:
  assumes "m = CHR ''*'' \<or> m = CHR ''_''" and "rest = [] \<or> hd rest \<noteq> m"
  shows "scanLine prev (BACKSLASH # m # rest) buffer b i u segs =
         scanLine (Some m) rest (buffer @ [BACKSLASH, m]) b i u segs"
  using assms by (cases rest) (auto simp: Let_def)





text \<open>
  C10. A single \<open>*\<close> or \<open>_\<close> right after a backslash does not toggle italic, and the
  backslash and the marker are both kept: when the loop is at the backslash, two steps later
  it is past the marker with the two characters added to the buffer and the three styles
  unchanged; the run that is emitted next has the styles in force before, and its text
  contains the buffer, the backslash and the marker. A text that has no other marker is
  emitted whole, as one run without style.
\<close>

theorem escaped_marker_is_kept:
  assumes "m = CHR ''*'' \<or> m = CHR ''_''" and "rest = [] \<or> hd rest \<noteq> m"
    and "list_all plainChar s1" and "list_all plainChar s2"
  shows "scanLine prev (BACKSLASH # m # rest) buffer b i u segs =
           scanLine (Some m) rest (buffer @ [BACKSLASH, m]) b i u segs \<and>
         (\<exists>t more. scanLine prev (BACKSLASH # m # rest) buffer b i u segs =
            segs @ \<lparr>text = buffer @ [BACKSLASH, m] @ t, bold = b, italic = i, underline = u,
                     newline = False\<rparr> # more) \<and>
         parseMarkdownToSegments (s1 @ [BACKSLASH, m] @ s2) =
           [\<lparr>text = s1 @ [BACKSLASH, m] @ s2, bold = False, italic = False,
             underline = False, newline = False\<rparr>]"
proof (intro conjI)
  show step: "scanLine prev (BACKSLASH # m # rest) buffer b i u segs =
      scanLine (Some m) rest (buffer @ [BACKSLASH, m]) b i u segs"
    using assms(1,2) by (rule escaped_marker_step)
  obtain t more where "scanLine (Some m) rest (buffer @ [BACKSLASH, m]) b i u segs =
      segs @ \<lparr>text = (buffer @ [BACKSLASH, m]) @ t, bold = b, italic = i, underline = u,
               newline = False\<rparr> # more"
    using scanLine_buffer [of "buffer @ [BACKSLASH, m]" "Some m" rest b i u segs] by auto
  with step show "\<exists>t more. scanLine prev (BACKSLASH # m # rest) buffer b i u segs =
      segs @ \<lparr>text = buffer @ [BACKSLASH, m] @ t, bold = b, italic = i, underline = u,
               newline = False\<rparr> # more"
    by (intro exI [of _ t] exI [of _ more]) simp
  let ?line = "s1 @ [BACKSLASH, m] @ s2"
  have "LF \<notin> set ?line"
    using plain_no_line_feed [OF assms(3)] plain_no_line_feed [OF assms(4)] assms(1) by auto
  then have lines: "splitNewline ?line = [?line]"
    unfolding splitNewline_def using splitNewlineFrom_one_line [of ?line "[]"] by simp
  have next_char: "s2 = [] \<or> hd s2 \<noteq> m"
    using assms(1,4) by (cases s2) (auto simp: plainChar_def)
  obtain p where "scanLine None (s1 @ BACKSLASH # m # s2) [] False False False [] =
      scanLine p (BACKSLASH # m # s2) ([] @ s1) False False False []"
    using scanLine_plain_prefix [OF assms(3)] by blast
  also have "\<dots> = scanLine (Some m) s2 (s1 @ [BACKSLASH, m]) False False False []"
    using escaped_marker_step [OF assms(1) next_char] by simp
  also have "\<dots> = flush ((s1 @ [BACKSLASH, m]) @ s2) False False False []"
    using assms(4) by (rule scanLine_plain)
  finally show "parseMarkdownToSegments ?line =
      [\<lparr>text = ?line, bold = False, italic = False, underline = False, newline = False\<rparr>]"
    using lines by (simp add: parseMarkdownToSegments_def flush_def)
qed

theorem escaped_marker_is_kept_witness:
  "hd ''b*'' \<noteq> CHR ''*'' \<and> list_all plainChar ''2 '' \<and> list_all plainChar '' 3'' \<and>
   scanLine None (BACKSLASH # CHR ''*'' # ''b*'') ''a'' False True False [] =
     [\<lparr>text = [CHR ''a'', BACKSLASH, CHR ''*'', CHR ''b''], bold = False, italic = True,
       underline = False, newline = False\<rparr>] \<and>
   parseMarkdownToSegments (''2 '' @ [BACKSLASH, CHR ''*''] @ '' 3'') =
     [\<lparr>text = ''2 '' @ [BACKSLASH, CHR ''*''] @ '' 3'', bold = False, italic = False,
       underline = False, newline = False\<rparr>]"
proof -
  have h: "CHR ''*'' = CHR ''*'' \<or> CHR ''*'' = CHR ''_''" "''b*'' = [] \<or> hd ''b*'' \<noteq> CHR ''*''"
    "list_all plainChar ''2 ''" "list_all plainChar '' 3''"
    by (simp_all add: plainChar_def)
  have e: "scanLine (Some (CHR ''*'')) ''b*'' (''a'' @ [BACKSLASH, CHR ''*'']) False True False [] =
     [\<lparr>text = [CHR ''a'', BACKSLASH, CHR ''*'', CHR ''b''], bold = False, italic = True,
       underline = False, newline = False\<rparr>]"
    by (simp add: flush_def)
  show ?thesis
    using h escaped_marker_is_kept [OF h, of None "''a''" False True False "[]"] e by simp
qed

section \<open>Properties of the wrap engine\<close>

subsection \<open>Rounding to a double\<close>

lemma pow2_pos: "0 < (2::real) powi e"
  by (simp add: zero_less_power_int)

lemma pow2_mono: "a \<le> b \<Longrightarrow> (2::real) powi a \<le> 2 powi b"
  by (rule power_int_increasing) simp_all

lemma pow2_add: "(2::real) powi (a + b) = 2 powi a * 2 powi b"
  by (rule power_int_add) simp

lemma pow2_nat: "(2::real) powi (e + int n) = 2 ^ n * 2 powi e"
  by (simp add: pow2_add power_int_of_nat)

lemma expDown_props:
  "- 1074 \<le> e0 \<Longrightarrow>
   - 1074 \<le> expDown x e0 \<and> expDown x e0 \<le> e0 \<and>
   (expDown x e0 = - 1074 \<or> 2 powi (expDown x e0 + 52) \<le> x) \<and>
   (expDown x e0 = e0 \<or> x < 2 powi (expDown x e0 + 53))"
proof (induction x e0 rule: expDown.induct)
  case (1 x e)
  show ?case
  proof (cases "- 1074 < e \<and> x < 2 powi (e + 52)")
    case True
    then have step: "expDown x e = expDown x (e - 1)"
      by (subst expDown.simps) simp
    have IH: "- 1074 \<le> expDown x (e - 1) \<and> expDown x (e - 1) \<le> e - 1 \<and>
        (expDown x (e - 1) = - 1074 \<or> 2 powi (expDown x (e - 1) + 52) \<le> x) \<and>
        (expDown x (e - 1) = e - 1 \<or> x < 2 powi (expDown x (e - 1) + 53))"
      using 1(1) [OF True] True by simp
    have "x < 2 powi (expDown x (e - 1) + 53)"
    proof (cases "expDown x (e - 1) = e - 1")
      case True
      then have eq: "expDown x (e - 1) + 53 = e + 52" by simp
      have "x < 2 powi (e + 52)" using \<open>- 1074 < e \<and> x < 2 powi (e + 52)\<close> by (rule conjunct2)
      then show ?thesis unfolding eq .
    next
      case False
      then show ?thesis using IH by simp
    qed
    then show ?thesis using IH step by simp
  next
    case False
    then have "expDown x e = e" by (subst expDown.simps) auto
    then show ?thesis using False 1(2) by auto
  qed
qed

lemma expUp_props:
  "e0 \<le> 971 \<Longrightarrow>
   e0 \<le> expUp x e0 \<and> expUp x e0 \<le> 971 \<and>
   (expUp x e0 = 971 \<or> x < 2 powi (expUp x e0 + 53)) \<and>
   (expUp x e0 = e0 \<or> 2 powi (expUp x e0 + 52) \<le> x)"
proof (induction x e0 rule: expUp.induct)
  case (1 x e)
  show ?case
  proof (cases "e < 971 \<and> 2 powi (e + 53) \<le> x")
    case True
    then have step: "expUp x e = expUp x (e + 1)"
      by (subst expUp.simps) simp
    have IH: "e + 1 \<le> expUp x (e + 1) \<and> expUp x (e + 1) \<le> 971 \<and>
        (expUp x (e + 1) = 971 \<or> x < 2 powi (expUp x (e + 1) + 53)) \<and>
        (expUp x (e + 1) = e + 1 \<or> 2 powi (expUp x (e + 1) + 52) \<le> x)"
      using 1(1) [OF True] True by simp
    have "2 powi (expUp x (e + 1) + 52) \<le> x"
    proof (cases "expUp x (e + 1) = e + 1")
      case True
      then have eq: "expUp x (e + 1) + 52 = e + 53" by simp
      have "2 powi (e + 53) \<le> x" using \<open>e < 971 \<and> 2 powi (e + 53) \<le> x\<close> by (rule conjunct2)
      then show ?thesis unfolding eq .
    next
      case False
      then show ?thesis using IH by simp
    qed
    then show ?thesis using IH step by simp
  next
    case False
    then have "expUp x e = e" by (subst expUp.simps) auto
    then show ?thesis using False 1(2) by auto
  qed
qed

lemma ulpExponent_props:
  "- 1074 \<le> ulpExponent x \<and> ulpExponent x \<le> 971 \<and>
   (ulpExponent x = - 1074 \<or> 2 powi (ulpExponent x + 52) \<le> x) \<and>
   (ulpExponent x = 971 \<or> x < 2 powi (ulpExponent x + 53))"
proof -
  let ?d = "expDown x 0"
  have d: "- 1074 \<le> ?d \<and> ?d \<le> 0 \<and> (?d = - 1074 \<or> 2 powi (?d + 52) \<le> x)"
    using expDown_props [of 0 x] by simp
  then have "?d \<le> 971" by simp
  from expUp_props [OF this, of x] d show ?thesis
    unfolding ulpExponent_def by auto
qed

lemma ulpExponent_unique:
  assumes "- 1074 \<le> e" and "e \<le> 971"
    and "e = - 1074 \<or> 2 powi (e + 52) \<le> x"
    and "e = 971 \<or> x < 2 powi (e + 53)"
  shows "ulpExponent x = e"
proof -
  let ?u = "ulpExponent x"
  note u = ulpExponent_props [of x]
  have "\<not> ?u < e"
  proof
    assume lt: "?u < e"
    then have "x < 2 powi (?u + 53)" using u assms(2) by auto
    also have "\<dots> \<le> 2 powi (e + 52)" using lt by (intro pow2_mono) simp
    also have "\<dots> \<le> x" using assms(3) lt u by auto
    finally show False by simp
  qed
  moreover have "\<not> e < ?u"
  proof
    assume lt: "e < ?u"
    then have "x < 2 powi (e + 53)" using u assms(4) by auto
    also have "\<dots> \<le> 2 powi (?u + 52)" using lt by (intro pow2_mono) simp
    also have "\<dots> \<le> x" using u lt assms(1) by auto
    finally show False by simp
  qed
  ultimately show ?thesis by simp
qed

lemma ulpExponent_mono:
  assumes "x \<le> y"
  shows "ulpExponent x \<le> ulpExponent y"
proof (rule ccontr)
  assume "\<not> ?thesis"
  then have lt: "ulpExponent y < ulpExponent x" by simp
  note ux = ulpExponent_props [of x] and uy = ulpExponent_props [of y]
  have "y < 2 powi (ulpExponent y + 53)" using uy ux lt by auto
  also have "\<dots> \<le> 2 powi (ulpExponent x + 52)" using lt by (intro pow2_mono) simp
  also have "\<dots> \<le> x" using ux uy lt by auto
  finally show False using assms by simp
qed

lemma roundHalfEven_floor:
  "roundHalfEven y = \<lfloor>y\<rfloor> \<or> (roundHalfEven y = \<lfloor>y\<rfloor> + 1 \<and> 1 / 2 \<le> y - of_int \<lfloor>y\<rfloor>)"
  by (auto simp: roundHalfEven_def Let_def)

lemma roundHalfEven_ge: "of_int k \<le> y \<Longrightarrow> k \<le> roundHalfEven y"
proof -
  assume "of_int k \<le> y"
  then have "k \<le> \<lfloor>y\<rfloor>" by (simp add: le_floor_iff)
  then show ?thesis using roundHalfEven_floor [of y] by auto
qed

lemma roundHalfEven_le: "y \<le> of_int k \<Longrightarrow> roundHalfEven y \<le> k"
proof -
  assume le: "y \<le> of_int k"
  show ?thesis
  proof (cases "roundHalfEven y = \<lfloor>y\<rfloor>")
    case True
    then show ?thesis using le by (simp add: floor_le_iff)
  next
    case False
    then have r: "roundHalfEven y = \<lfloor>y\<rfloor> + 1" and f: "1 / 2 \<le> y - of_int \<lfloor>y\<rfloor>"
      using roundHalfEven_floor [of y] by auto
    have "of_int \<lfloor>y\<rfloor> < y" using f by simp
    then have "of_int \<lfloor>y\<rfloor> < (of_int k :: real)" using le by simp
    then have "\<lfloor>y\<rfloor> < k" by simp
    then show ?thesis using r by simp
  qed
qed

lemma roundHalfEven_of_int: "roundHalfEven (of_int k) = k"
  by (simp add: roundHalfEven_def)


lemma pow2_52: "(2::real) powi (e + 52) = 2 ^ 52 * 2 powi e"
  using pow2_nat [of e 52] by simp

lemma pow2_53: "(2::real) powi (e + 53) = 2 ^ 53 * 2 powi e"
  using pow2_nat [of e 53] by simp

lemma roundDouble_pos:
  assumes "0 < x"
  shows "roundDouble x =
     (if ulpExponent x = 971 \<and> 2 ^ 53 \<le> roundHalfEven (x / 2 powi ulpExponent x) then PlusInfinity
      else Num (of_int (roundHalfEven (x / 2 powi ulpExponent x)) * 2 powi ulpExponent x))"
proof -
  have a: "\<bar>x\<bar> = x" "sgn x = 1" "(x = 0) = False" "(0 < x) = True"
    using assms by simp_all
  show ?thesis
    unfolding roundDouble_def Let_def a by (simp only: if_False if_True mult_1)
qed

lemma significand_lower:
  assumes "- 1074 < ulpExponent x"
  shows "2 ^ 52 \<le> roundHalfEven (x / 2 powi ulpExponent x)"
proof -
  let ?e = "ulpExponent x"
  have "2 ^ 52 * 2 powi ?e \<le> x"
    using ulpExponent_props [of x] assms by (simp add: pow2_52)
  then have "2 ^ 52 \<le> x / 2 powi ?e"
    using pow2_pos [of ?e] by (simp add: pos_le_divide_eq)
  then have "of_int (2 ^ 52) \<le> x / 2 powi ?e" by simp
  then show ?thesis by (rule roundHalfEven_ge)
qed

lemma significand_upper:
  assumes "ulpExponent x < 971"
  shows "roundHalfEven (x / 2 powi ulpExponent x) \<le> 2 ^ 53"
proof -
  let ?e = "ulpExponent x"
  have "x < 2 ^ 53 * 2 powi ?e"
    using ulpExponent_props [of x] assms by (simp add: pow2_53)
  then have "x / 2 powi ?e \<le> 2 ^ 53"
    using pow2_pos [of ?e] by (simp add: pos_divide_le_eq)
  then have "x / 2 powi ?e \<le> of_int (2 ^ 53)" by simp
  then show ?thesis by (rule roundHalfEven_le)
qed

lemma roundDouble_ge:
  assumes "isDouble d" and "0 < d" and "d \<le> x"
  shows "roundDouble x = PlusInfinity \<or> (\<exists>r. roundDouble x = Num r \<and> d \<le> r)"
proof -
  let ?ed = "ulpExponent d" and ?ex = "ulpExponent x"
  let ?md = "roundHalfEven (d / 2 powi ?ed)" and ?mx = "roundHalfEven (x / 2 powi ?ex)"
  have xpos: "0 < x" using assms by simp
  have d: "of_int ?md * 2 powi ?ed = d"
    using assms(1,2) by (auto simp: isDouble_def roundDouble_pos split: if_splits)
  have le: "?ed \<le> ?ex" using assms(3) by (rule ulpExponent_mono)
  show ?thesis
  proof (cases "roundDouble x = PlusInfinity")
    case True
    then show ?thesis by simp
  next
    case False
    then have rx: "roundDouble x = Num (of_int ?mx * 2 powi ?ex)"
      using xpos by (auto simp: roundDouble_pos split: if_splits)
    have "d \<le> of_int ?mx * 2 powi ?ex"
    proof (cases "?ed = ?ex")
      case True
      have "of_int ?md = d / 2 powi ?ed"
        using d pow2_pos [of ?ed] by (simp add: field_simps)
      also have "\<dots> \<le> x / 2 powi ?ex"
        unfolding True using assms(3) pow2_pos [of ?ex] by (simp add: divide_right_mono)
      finally have "?md \<le> ?mx" by (rule roundHalfEven_ge)
      then have "(of_int ?md :: real) \<le> of_int ?mx" by simp
      then have "(of_int ?md :: real) * 2 powi ?ex \<le> of_int ?mx * 2 powi ?ex"
        using pow2_pos [of ?ex] by (simp add: mult_right_mono)
      moreover have "of_int ?md * 2 powi ?ex = d"
        using d unfolding True .
      ultimately show ?thesis by (simp only:)
    next
      case False
      then have lt: "?ed < ?ex" using le by simp
      then have "?ed < 971" using ulpExponent_props [of x] by simp
      then have "d < 2 powi (?ed + 53)" using ulpExponent_props [of d] by auto
      also have "\<dots> \<le> 2 powi (?ex + 52)" using lt by (intro pow2_mono) simp
      also have "\<dots> = 2 ^ 52 * 2 powi ?ex" by (rule pow2_52)
      also have "\<dots> \<le> of_int ?mx * 2 powi ?ex"
      proof -
        have "- 1074 < ?ex" using lt ulpExponent_props [of d] by simp
        then have "2 ^ 52 \<le> ?mx" by (rule significand_lower)
        then have "(2 ^ 52 :: real) \<le> of_int ?mx" by (metis of_int_le_iff of_int_numeral of_int_power)
        then show ?thesis using pow2_pos [of ?ex] by (simp add: mult_right_mono)
      qed
      finally show ?thesis by simp
    qed
    then show ?thesis using rx by simp
  qed
qed

lemma isDouble_grid:
  assumes "- 1074 \<le> e" and "e \<le> 971" and "0 < m" and "m \<le> 2 ^ 53"
    and "e = - 1074 \<or> 2 ^ 52 \<le> m" and "e = 971 \<longrightarrow> m < 2 ^ 53"
  shows "isDouble (of_int m * 2 powi e)"
proof -
  let ?r = "of_int m * 2 powi e :: real"
  have rpos: "0 < ?r" using assms(3) pow2_pos [of e] by simp
  have m53: "(of_int m :: real) \<le> 2 ^ 53"
    using assms(4) by (metis of_int_le_iff of_int_numeral of_int_power)
  show ?thesis
  proof (cases "m < 2 ^ 53")
    case True
    then have "(of_int m :: real) < 2 ^ 53"
      by (metis of_int_less_iff of_int_numeral of_int_power)
    then have hi: "?r < 2 powi (e + 53)"
      using pow2_pos [of e] by (simp add: pow2_53 mult_strict_right_mono)
    have lo: "e = - 1074 \<or> 2 powi (e + 52) \<le> ?r"
    proof (cases "e = - 1074")
      case True
      then show ?thesis by simp
    next
      case False
      then have "2 ^ 52 \<le> m" using assms(5) by simp
      then have "(2 ^ 52 :: real) \<le> of_int m"
        by (metis of_int_le_iff of_int_numeral of_int_power)
      then show ?thesis using pow2_pos [of e] by (simp add: pow2_52 mult_right_mono)
    qed
    have e: "ulpExponent ?r = e"
      using assms(1,2) lo hi by (intro ulpExponent_unique) auto
    have "?r / 2 powi e = of_int m" using pow2_pos [of e] by simp
    then have "roundHalfEven (?r / 2 powi ulpExponent ?r) = m"
      unfolding e by (simp add: roundHalfEven_of_int)
    then show ?thesis
      using rpos True e by (simp add: isDouble_def roundDouble_pos)
  next
    case False
    then have m: "m = 2 ^ 53" using assms(4) by simp
    then have e971: "e < 971" using assms(2,6) by auto
    have r: "?r = 2 ^ 53 * 2 powi e"
      unfolding m by simp
    have s1: "(2::real) powi (e + 1) = 2 * 2 powi e"
      using pow2_nat [of e 1] by simp
    have s53: "(2::real) powi ((e + 1) + 52) = 2 ^ 53 * 2 powi e"
      unfolding pow2_52 s1 by simp
    have s54: "(2::real) powi ((e + 1) + 53) = 2 ^ 54 * 2 powi e"
      unfolding pow2_53 s1 by simp
    have lo: "2 powi ((e + 1) + 52) \<le> ?r"
      unfolding r s53 by simp
    have hi: "?r < 2 powi ((e + 1) + 53)"
      unfolding r s54 using pow2_pos [of e] by simp
    have e: "ulpExponent ?r = e + 1"
      using assms(1) e971 lo hi by (intro ulpExponent_unique) auto
    have "?r / 2 powi (e + 1) = of_int (2 ^ 52)"
      unfolding r s1 using pow2_pos [of e] by simp
    then have "roundHalfEven (?r / 2 powi ulpExponent ?r) = 2 ^ 52"
      unfolding e by (simp only: roundHalfEven_of_int)
    moreover have "of_int (2 ^ 52) * 2 powi (e + 1) = ?r"
      unfolding r s1 by simp
    ultimately show ?thesis
      using rpos e by (simp add: isDouble_def roundDouble_pos)
  qed
qed

lemma roundDouble_is_double:
  assumes "0 \<le> x" and "roundDouble x = Num r"
  shows "isDouble r \<and> 0 \<le> r"
proof (cases "x = 0")
  case True
  then show ?thesis using assms(2) by (simp add: roundDouble_def isDouble_def)
next
  case False
  then have xpos: "0 < x" using assms(1) by simp
  let ?e = "ulpExponent x"
  let ?m = "roundHalfEven (x / 2 powi ?e)"
  have r: "r = of_int ?m * 2 powi ?e" and no: "\<not> (?e = 971 \<and> 2 ^ 53 \<le> ?m)"
    using assms(2) xpos by (auto simp: roundDouble_pos split: if_splits)
  have "of_int 0 \<le> x / 2 powi ?e" using xpos pow2_pos [of ?e] by simp
  then have m0: "0 \<le> ?m" by (rule roundHalfEven_ge)
  show ?thesis
  proof (cases "?m = 0")
    case True
    then show ?thesis using r by (simp add: roundDouble_def isDouble_def)
  next
    case False
    then have mpos: "0 < ?m" using m0 by simp
    have up: "?m \<le> 2 ^ 53"
    proof (cases "?e < 971")
      case True
      then show ?thesis by (rule significand_upper)
    next
      case False
      then have "?e = 971" using ulpExponent_props [of x] by simp
      then show ?thesis using no by simp
    qed
    have "isDouble (of_int ?m * 2 powi ?e)"
    proof (rule isDouble_grid)
      show "- 1074 \<le> ?e" "?e \<le> 971" using ulpExponent_props [of x] by simp_all
      show "0 < ?m" by (rule mpos)
      show "?m \<le> 2 ^ 53" by (rule up)
      show "?e = - 1074 \<or> 2 ^ 52 \<le> ?m"
        using significand_lower [of x] ulpExponent_props [of x] by fastforce
      show "?e = 971 \<longrightarrow> ?m < 2 ^ 53" using no by auto
    qed
    moreover have "(0::real) \<le> of_int ?m * 2 powi ?e" using m0 pow2_pos [of ?e] by simp
    ultimately show ?thesis using r by simp
  qed
qed

lemma isDouble_zero: "isDouble 0"
  by (simp add: isDouble_def roundDouble_def)

lemma roundDouble_sum:
  assumes "isDouble a" and "0 \<le> a" and "isDouble w" and "0 \<le> w"
  shows "roundDouble (a + w) = PlusInfinity \<or>
         (\<exists>s. roundDouble (a + w) = Num s \<and> a \<le> s \<and> w \<le> s \<and> isDouble s \<and> 0 \<le> s)"
proof (cases "roundDouble (a + w) = PlusInfinity")
  case True
  then show ?thesis by simp
next
  case False
  have ge: "d \<le> s" if "isDouble d" "0 \<le> d" "d \<le> a + w" "roundDouble (a + w) = Num s" for d s
  proof (cases "d = 0")
    case True
    then show ?thesis using roundDouble_is_double [of "a + w" s] that assms by simp
  next
    case nz: False
    then show ?thesis using roundDouble_ge [of d "a + w"] that False by auto
  qed
  have "0 \<le> a + w" using assms by simp
  then have "roundDouble (a + w) \<noteq> MinusInfinity"
    by (auto simp: roundDouble_def Let_def)
  then obtain s where s: "roundDouble (a + w) = Num s"
    using False by (cases "roundDouble (a + w)") auto
  have "a \<le> s" using ge [of a s] assms s by simp
  moreover have "w \<le> s" using ge [of w s] assms s by simp
  moreover have "isDouble s \<and> 0 \<le> s" using roundDouble_is_double [of "a + w" s] assms s by simp
  ultimately show ?thesis using s by simp
qed

subsection \<open>The lines\<close>

lemma lineWidth_snoc:
  "lineWidth w fs (line @ [f]) = addDouble (lineWidth w fs line) (fragmentWidth w fs f)"
  by (simp add: lineWidth_def)

lemma lineWidth_single:
  assumes "isDouble (fragmentWidth w fs f)"
  shows "lineWidth w fs [f] = Num (fragmentWidth w fs f)"
  using assms by (simp add: lineWidth_def addDouble_def isDouble_def)

lemma lineWidth_shape:
  assumes "\<forall>font txt. 0 \<le> w font fs txt \<and> isDouble (w font fs txt)"
  shows "lineWidth w fs line = PlusInfinity \<or>
         (\<exists>s. lineWidth w fs line = Num s \<and> 0 \<le> s \<and> isDouble s \<and>
              (\<forall>f \<in> set line. fragmentWidth w fs f \<le> s))"
proof (induction line rule: rev_induct)
  case Nil
  then show ?case by (simp add: lineWidth_def isDouble_zero)
next
  case (snoc f line)
  have wf: "0 \<le> fragmentWidth w fs f" "isDouble (fragmentWidth w fs f)"
    using assms by (simp_all add: fragmentWidth_def)
  show ?case
  proof (cases "lineWidth w fs line = PlusInfinity")
    case True
    then show ?thesis by (simp add: lineWidth_snoc addDouble_def)
  next
    case False
    then obtain s where s: "lineWidth w fs line = Num s" "0 \<le> s" "isDouble s"
      and frs: "\<forall>g \<in> set line. fragmentWidth w fs g \<le> s"
      using snoc by auto
    have sum: "lineWidth w fs (line @ [f]) = roundDouble (s + fragmentWidth w fs f)"
      using s(1) by (simp add: lineWidth_snoc addDouble_def)
    from roundDouble_sum [OF s(3,2) wf(2,1)] show ?thesis
    proof
      assume "roundDouble (s + fragmentWidth w fs f) = PlusInfinity"
      then show ?thesis using sum by simp
    next
      assume "\<exists>t. roundDouble (s + fragmentWidth w fs f) = Num t \<and> s \<le> t \<and>
          fragmentWidth w fs f \<le> t \<and> isDouble t \<and> 0 \<le> t"
      then obtain t where t: "roundDouble (s + fragmentWidth w fs f) = Num t" "s \<le> t"
          "fragmentWidth w fs f \<le> t" "isDouble t" "0 \<le> t"
        by auto
      have "\<forall>g \<in> set (line @ [f]). fragmentWidth w fs g \<le> t"
        using frs t(2,3) by fastforce
      then show ?thesis using sum t by simp
    qed
  qed
qed

lemma placeWord_inv:
  assumes H: "\<forall>font txt. 0 \<le> w font fs txt \<and> isDouble (w font fs txt)"
    and inv: "wrapInv w maxWidth fs st"
  shows "wrapInv w maxWidth fs (placeWord w maxWidth fs seg word st)"
proof -
  obtain L cur cw where st: "st = (L, cur, cw)" by (cases st)
  from inv st have L: "list_all (fitsLine w maxWidth fs) L"
    and cw: "cw = lineWidth w fs cur"
    and cur: "cur = [] \<or> fitsLine w maxWidth fs cur"
    by (simp_all add: wrapInv_def)
  let ?ww = "w (getFontName (bold seg) (italic seg)) fs word"
  let ?frag = "\<lparr>text = word, bold = bold seg, italic = italic seg, underline = underline seg, newline = False\<rparr>"
  have fw: "fragmentWidth w fs ?frag = ?ww" by (simp add: fragmentWidth_def)
  have one: "lineWidth w fs [?frag] = Num ?ww"
    using H lineWidth_single [of w fs ?frag] by (simp add: fw)
  have start: "addDouble (Num 0) ?ww = Num ?ww"
    using one by (simp add: lineWidth_def fw)
  have first: "fitsLine w maxWidth fs [?frag]" if "trim word \<noteq> []"
    using that one by (auto simp: fitsLine_def)
  have fresh: "wrapInv w maxWidth fs
      (if trim word = [] then (L', [], Num 0) else (L', [?frag], addDouble (Num 0) ?ww))"
    if "list_all (fitsLine w maxWidth fs) L'" for L'
    using that first one start by (simp add: wrapInv_def lineWidth_def)
  show ?thesis
  proof (cases "word = []")
    case True
    then show ?thesis using inv by (simp add: placeWord_def)
  next
    case False
    show ?thesis
    proof (cases "exceeds (addDouble cw ?ww) maxWidth \<and> length cur > 0")
      case True
      then have "fitsLine w maxWidth fs cur" using cur by auto
      then have "list_all (fitsLine w maxWidth fs) (L @ [cur])" using L by simp
      then have "wrapInv w maxWidth fs
          (if trim word = [] then (L @ [cur], [], Num 0)
           else (L @ [cur], [?frag], addDouble (Num 0) ?ww))"
        by (rule fresh)
      moreover have "placeWord w maxWidth fs seg word st =
          (if trim word = [] then (L @ [cur], [], Num 0)
           else (L @ [cur], [?frag], addDouble (Num 0) ?ww))"
        using True False st by (simp add: placeWord_def Let_def)
      ultimately show ?thesis by simp
    next
      case no_wrap: False
      show ?thesis
      proof (cases "cur = []")
        case True
        then have "cw = Num 0" using cw by (simp add: lineWidth_def)
        then have "placeWord w maxWidth fs seg word st =
            (if trim word = [] then (L, [], Num 0) else (L, [?frag], addDouble (Num 0) ?ww))"
          using True False st by (simp add: placeWord_def Let_def)
        moreover have "wrapInv w maxWidth fs
            (if trim word = [] then (L, [], Num 0) else (L, [?frag], addDouble (Num 0) ?ww))"
          using L by (rule fresh)
        ultimately show ?thesis by simp
      next
        case nonempty: False
        then have ok: "\<not> exceeds (addDouble cw ?ww) maxWidth" using no_wrap by auto
        have sum: "lineWidth w fs (cur @ [?frag]) = addDouble cw ?ww"
          by (simp add: lineWidth_snoc cw fw)
        have "fitsLine w maxWidth fs (cur @ [?frag])"
        proof -
          from lineWidth_shape [where w = w and fs = fs and line = "cur @ [?frag]", OF H] ok sum
          obtain s where "lineWidth w fs (cur @ [?frag]) = Num s" "s \<le> maxWidth"
            by (auto simp: exceeds_def)
          then show ?thesis using nonempty cur by (auto simp: fitsLine_def)
        qed
        then show ?thesis
          using no_wrap nonempty False L st sum
          by (simp add: placeWord_def wrapInv_def Let_def)
      qed
    qed
  qed
qed

lemma wordLoop_inv:
  assumes "\<forall>font txt. 0 \<le> w font fs txt \<and> isDouble (w font fs txt)"
  shows "wrapInv w maxWidth fs st \<Longrightarrow> wrapInv w maxWidth fs (wordLoop w maxWidth fs seg ws st)"
  using placeWord_inv [where w = w and fs = fs and maxWidth = maxWidth, OF assms]
  by (induction ws arbitrary: st) simp_all

lemma placeSegment_inv:
  assumes "\<forall>font txt. 0 \<le> w font fs txt \<and> isDouble (w font fs txt)"
    and "wrapInv w maxWidth fs st"
  shows "wrapInv w maxWidth fs (placeSegment w maxWidth fs seg st)"
proof (cases "newline seg")
  case True
  then show ?thesis
    using assms(2) by (cases st) (auto simp: placeSegment_def wrapInv_def lineWidth_def)
next
  case False
  then show ?thesis
    using wordLoop_inv [where w = w and fs = fs and maxWidth = maxWidth, OF assms]
    by (simp add: placeSegment_def)
qed

lemma segmentLoop_inv:
  assumes "\<forall>font txt. 0 \<le> w font fs txt \<and> isDouble (w font fs txt)"
  shows "wrapInv w maxWidth fs st \<Longrightarrow> wrapInv w maxWidth fs (segmentLoop w maxWidth fs segs st)"
  using placeSegment_inv [where w = w and fs = fs and maxWidth = maxWidth, OF assms]
  by (induction segs arbitrary: st) simp_all

lemma splitIntoLines_fits:
  assumes "\<forall>font txt. 0 \<le> w font fs txt \<and> isDouble (w font fs txt)"
  shows "list_all (fitsLine w maxWidth fs) (splitIntoLines segs w maxWidth fs)"
proof -
  have "wrapInv w maxWidth fs ([], [], Num 0)" by (simp add: wrapInv_def lineWidth_def)
  then have "wrapInv w maxWidth fs (segmentLoop w maxWidth fs segs ([], [], Num 0))"
    using segmentLoop_inv [where w = w and fs = fs and maxWidth = maxWidth, OF assms] by simp
  then show ?thesis
    by (cases "segmentLoop w maxWidth fs segs ([], [], Num 0)")
       (auto simp: splitIntoLines_def wrapInv_def)
qed

lemma placeWord_nonempty:
  "[] \<notin> set (fst st) \<Longrightarrow> [] \<notin> set (fst (placeWord w maxWidth fs seg word st))"
  by (cases st) (auto simp: placeWord_def Let_def)

lemma wordLoop_nonempty:
  "[] \<notin> set (fst st) \<Longrightarrow> [] \<notin> set (fst (wordLoop w maxWidth fs seg ws st))"
  by (induction ws arbitrary: st) (simp_all add: placeWord_nonempty)

lemma placeSegment_nonempty:
  "[] \<notin> set (fst st) \<Longrightarrow> [] \<notin> set (fst (placeSegment w maxWidth fs seg st))"
  by (cases st) (auto simp: placeSegment_def wordLoop_nonempty)

lemma segmentLoop_nonempty:
  "[] \<notin> set (fst st) \<Longrightarrow> [] \<notin> set (fst (segmentLoop w maxWidth fs segs st))"
  by (induction segs arbitrary: st) (simp_all add: placeSegment_nonempty)

lemma splitIntoLines_nonempty: "[] \<notin> set (splitIntoLines segs w maxWidth fs)"
proof -
  have "[] \<notin> set (fst (segmentLoop w maxWidth fs segs ([], [], Num 0)))"
    by (rule segmentLoop_nonempty) simp
  then show ?thesis
    by (cases "segmentLoop w maxWidth fs segs ([], [], Num 0)") (auto simp: splitIntoLines_def)
qed

lemma placeWord_prepend:
  "placeWord w maxWidth fs seg word (pre @ L, cur, cw) =
   (case placeWord w maxWidth fs seg word (L, cur, cw) of (L', cur', cw') \<Rightarrow> (pre @ L', cur', cw'))"
  by (simp add: placeWord_def Let_def)

lemma wordLoop_prepend:
  "wordLoop w maxWidth fs seg ws (pre @ L, cur, cw) =
   (case wordLoop w maxWidth fs seg ws (L, cur, cw) of (L', cur', cw') \<Rightarrow> (pre @ L', cur', cw'))"
proof (induction ws arbitrary: L cur cw)
  case Nil
  then show ?case by simp
next
  case (Cons word ws)
  obtain L1 cur1 cw1 where p: "placeWord w maxWidth fs seg word (L, cur, cw) = (L1, cur1, cw1)"
    by (cases "placeWord w maxWidth fs seg word (L, cur, cw)")
  then show ?case using Cons [of L1 cur1 cw1] by (simp add: placeWord_prepend)
qed

lemma placeSegment_prepend:
  "placeSegment w maxWidth fs seg (pre @ L, cur, cw) =
   (case placeSegment w maxWidth fs seg (L, cur, cw) of (L', cur', cw') \<Rightarrow> (pre @ L', cur', cw'))"
  by (simp add: placeSegment_def wordLoop_prepend)

lemma segmentLoop_prepend:
  "segmentLoop w maxWidth fs segs (pre @ L, cur, cw) =
   (case segmentLoop w maxWidth fs segs (L, cur, cw) of (L', cur', cw') \<Rightarrow> (pre @ L', cur', cw'))"
proof (induction segs arbitrary: L cur cw)
  case Nil
  then show ?case by simp
next
  case (Cons seg segs)
  obtain L1 cur1 cw1 where p: "placeSegment w maxWidth fs seg (L, cur, cw) = (L1, cur1, cw1)"
    by (cases "placeSegment w maxWidth fs seg (L, cur, cw)")
  then show ?case using Cons [of L1 cur1 cw1] by (simp add: placeSegment_prepend)
qed

lemma segmentLoop_append:
  "segmentLoop w maxWidth fs (xs @ ys) st = segmentLoop w maxWidth fs ys (segmentLoop w maxWidth fs xs st)"
  by (induction xs arbitrary: st) simp_all

lemma segmentLoop_breaks:
  "list_all newline brks \<Longrightarrow> brks \<noteq> [] \<Longrightarrow>
   segmentLoop w maxWidth fs brks (L, cur, cw) = ((if cur \<noteq> [] then L @ [cur] else L), [], Num 0)"
proof (induction brks arbitrary: L cur cw)
  case Nil
  then show ?case by simp
next
  case (Cons seg brks)
  show ?case
  proof (cases "brks = []")
    case True
    then show ?thesis using Cons.prems by (simp add: placeSegment_def)
  next
    case False
    then show ?thesis using Cons by (simp add: placeSegment_def)
  qed
qed

lemma splitIntoLines_breaks:
  assumes "brks \<noteq> []" and "list_all newline brks"
  shows "splitIntoLines (a @ brks @ b) w maxWidth fs =
         splitIntoLines a w maxWidth fs @ splitIntoLines b w maxWidth fs"
proof -
  obtain L cur cw where a: "segmentLoop w maxWidth fs a ([], [], Num 0) = (L, cur, cw)"
    by (cases "segmentLoop w maxWidth fs a ([], [], Num 0)")
  obtain L2 cur2 cw2 where b: "segmentLoop w maxWidth fs b ([], [], Num 0) = (L2, cur2, cw2)"
    by (cases "segmentLoop w maxWidth fs b ([], [], Num 0)")
  let ?La = "if cur \<noteq> [] then L @ [cur] else L"
  have "segmentLoop w maxWidth fs (a @ brks @ b) ([], [], Num 0) =
        segmentLoop w maxWidth fs b (?La @ [], [], Num 0)"
    using a segmentLoop_breaks [OF assms(2,1)] by (simp add: segmentLoop_append)
  also have "\<dots> = (?La @ L2, cur2, cw2)"
    unfolding segmentLoop_prepend b by simp
  finally show ?thesis using a b by (simp add: splitIntoLines_def)
qed

text \<open>
  C4. The widths are added as the code adds them, in doubles, from left to right. With a
  width measurement that is never negative, every line produced by the greedy wrap has a
  fragment, does not start with a white-space token, and has a width that is no more than
  the maximum width unless the line consists of a single fragment; a fragment that is by
  itself wider than the maximum is alone on its line. A token whose width added to the width
  of a non-empty current line exceeds the maximum closes that line.
\<close>

theorem wrapped_lines_fit:
  assumes "\<forall>font txt. 0 \<le> widthOfString font fontSize txt \<and> isDouble (widthOfString font fontSize txt)"
  shows "(\<forall>line \<in> set (splitIntoLines segments widthOfString maxWidth fontSize).
            line \<noteq> [] \<and> trim (text (hd line)) \<noteq> [] \<and>
            (\<exists>s. lineWidth widthOfString fontSize line = Num s \<and>
                 (s \<le> maxWidth \<or> (length line = 1 \<and> maxWidth < s))) \<and>
            (\<forall>f \<in> set line. maxWidth < fragmentWidth widthOfString fontSize f \<longrightarrow> line = [f])) \<and>
         (word \<noteq> [] \<and> currentLine \<noteq> [] \<and>
          exceeds (addDouble currentWidth
                     (widthOfString (getFontName (bold segment) (italic segment)) fontSize word))
            maxWidth \<longrightarrow>
          fst (placeWord widthOfString maxWidth fontSize segment word (lines, currentLine, currentWidth)) =
            lines @ [currentLine])"
proof (intro conjI ballI)
  fix line
  assume "line \<in> set (splitIntoLines segments widthOfString maxWidth fontSize)"
  then have fits: "fitsLine widthOfString maxWidth fontSize line"
    using splitIntoLines_fits [where w = widthOfString and fs = fontSize and maxWidth = maxWidth
        and segs = segments, OF assms]
    by (simp add: list_all_iff)
  then obtain s where s: "lineWidth widthOfString fontSize line = Num s"
      "s \<le> maxWidth \<or> (length line = 1 \<and> maxWidth < s)"
    by (auto simp: fitsLine_def split: double.splits)
  from fits show "line \<noteq> []" "trim (text (hd line)) \<noteq> []"
    by (simp_all add: fitsLine_def)
  from s show "\<exists>s. lineWidth widthOfString fontSize line = Num s \<and>
      (s \<le> maxWidth \<or> (length line = 1 \<and> maxWidth < s))"
    by blast
  fix f
  assume f: "f \<in> set line"
  show "maxWidth < fragmentWidth widthOfString fontSize f \<longrightarrow> line = [f]"
  proof
    assume wide: "maxWidth < fragmentWidth widthOfString fontSize f"
    have "fragmentWidth widthOfString fontSize f \<le> s"
      using lineWidth_shape [where w = widthOfString and fs = fontSize and line = line, OF assms]
        s(1) f
      by auto
    with wide s(2) have "length line = 1" by auto
    with f show "line = [f]" by (cases line) auto
  qed
next
  show "word \<noteq> [] \<and> currentLine \<noteq> [] \<and>
      exceeds (addDouble currentWidth
                 (widthOfString (getFontName (bold segment) (italic segment)) fontSize word))
        maxWidth \<longrightarrow>
      fst (placeWord widthOfString maxWidth fontSize segment word (lines, currentLine, currentWidth)) =
        lines @ [currentLine]"
    by (simp add: placeWord_def Let_def)
qed

theorem wrapped_lines_fit_witness:
  "isDouble 1 \<and> isDouble (2 ^ 53) \<and>
   splitIntoLines
     [\<lparr>text = ''a b  a'', bold = False, italic = False, underline = False, newline = False\<rparr>]
     (\<lambda>font size txt. if txt = ''a'' then 2 ^ 53 else 1) (2 ^ 53) 10 =
     [[\<lparr>text = ''a'', bold = False, italic = False, underline = False, newline = False\<rparr>,
       \<lparr>text = '' '', bold = False, italic = False, underline = False, newline = False\<rparr>,
       \<lparr>text = ''b'', bold = False, italic = False, underline = False, newline = False\<rparr>,
       \<lparr>text = ''  '', bold = False, italic = False, underline = False, newline = False\<rparr>],
      [\<lparr>text = ''a'', bold = False, italic = False, underline = False, newline = False\<rparr>]] \<and>
   lineWidth (\<lambda>font size txt. if txt = ''a'' then 2 ^ 53 else 1) 10
      [\<lparr>text = ''a'', bold = False, italic = False, underline = False, newline = False\<rparr>,
       \<lparr>text = '' '', bold = False, italic = False, underline = False, newline = False\<rparr>,
       \<lparr>text = ''b'', bold = False, italic = False, underline = False, newline = False\<rparr>,
       \<lparr>text = ''  '', bold = False, italic = False, underline = False, newline = False\<rparr>] = Num (2 ^ 53) \<and>
   (\<exists>s. lineWidth (\<lambda>font size txt. if txt = ''a'' then 2 ^ 53 else 1) 10
      [\<lparr>text = ''a'', bold = False, italic = False, underline = False, newline = False\<rparr>,
       \<lparr>text = '' '', bold = False, italic = False, underline = False, newline = False\<rparr>,
       \<lparr>text = ''b'', bold = False, italic = False, underline = False, newline = False\<rparr>,
       \<lparr>text = ''  '', bold = False, italic = False, underline = False, newline = False\<rparr>] = Num s \<and>
      (s \<le> 2 ^ 53 \<or>
       (length
          [\<lparr>text = ''a'', bold = False, italic = False, underline = False, newline = False\<rparr>,
       \<lparr>text = '' '', bold = False, italic = False, underline = False, newline = False\<rparr>,
       \<lparr>text = ''b'', bold = False, italic = False, underline = False, newline = False\<rparr>,
       \<lparr>text = ''  '', bold = False, italic = False, underline = False, newline = False\<rparr>] = 1 \<and>
        2 ^ 53 < s)))"
proof -
  let ?segs = "[\<lparr>text = ''a b  a'', bold = False, italic = False, underline = False, newline = False\<rparr>]"
  let ?m = "\<lambda>(font::string) (size::real) (txt::string). if txt = ''a'' then (2 ^ 53 :: real) else 1"
  let ?line = "[\<lparr>text = ''a'', bold = False, italic = False, underline = False, newline = False\<rparr>,
       \<lparr>text = '' '', bold = False, italic = False, underline = False, newline = False\<rparr>,
       \<lparr>text = ''b'', bold = False, italic = False, underline = False, newline = False\<rparr>,
       \<lparr>text = ''  '', bold = False, italic = False, underline = False, newline = False\<rparr>]"
  have d1: "isDouble 1" by code_simp
  have d2: "isDouble (2 ^ 53)" by code_simp
  have h: "\<forall>font txt. (0::real) \<le> ?m font 10 txt \<and> isDouble (?m font 10 txt)"
    using d1 d2 by simp
  have e: "splitIntoLines ?segs ?m (2 ^ 53) 10 =
     [?line,
      [\<lparr>text = ''a'', bold = False, italic = False, underline = False, newline = False\<rparr>]]"
    by code_simp
  have l: "lineWidth ?m 10 ?line = Num (2 ^ 53)"
    by code_simp
  have mem: "?line \<in> set (splitIntoLines ?segs ?m (2 ^ 53) 10)"
    unfolding e by simp
  note fit = wrapped_lines_fit [where widthOfString = ?m and fontSize = 10 and maxWidth = "2 ^ 53"
      and segments = ?segs, OF h, THEN conjunct1, THEN bspec, OF mem]
  from fit have "\<exists>s. lineWidth ?m 10 ?line = Num s \<and>
      (s \<le> 2 ^ 53 \<or> (length ?line = 1 \<and> 2 ^ 53 < s))"
    by (elim conjE)
  with d1 d2 e l show ?thesis by (intro conjI)
qed

text \<open>
  C9, as claimed: every line-break run starts a new line, so that consecutive line-break runs
  give empty lines that count. They do not: a line-break run closes the current line only
  under the guard \<open>currentLine.length > 0\<close>. The text \<open>a\<close>, two line feeds, \<open>b\<close> is wrapped
  into two lines, not three.
\<close>

theorem consecutive_line_breaks_collapse:
  "splitIntoLines (parseMarkdownToSegments (''a'' @ [LF, LF] @ ''b''))
     (\<lambda>font size txt. real (length txt)) 100 10 =
   [[\<lparr>text = ''a'', bold = False, italic = False, underline = False, newline = False\<rparr>],
    [\<lparr>text = ''b'', bold = False, italic = False, underline = False, newline = False\<rparr>]]"
  by code_simp

text \<open>
  C9, amended: a line-break run closes the current line, whatever its width, when that line
  holds at least one fragment, and does nothing else when the line is empty. So the lines of
  runs \<open>a\<close>, then one or more line-break runs, then runs \<open>b\<close>, are the lines of \<open>a\<close> followed by
  the lines of \<open>b\<close>: consecutive line breaks give one line boundary, and no produced line is
  empty.
\<close>

theorem line_breaks_separate_lines:
  assumes "brks \<noteq> []" and "list_all newline brks"
  shows "splitIntoLines (a @ brks @ b) widthOfString maxWidth fontSize =
           splitIntoLines a widthOfString maxWidth fontSize @
           splitIntoLines b widthOfString maxWidth fontSize \<and>
         [] \<notin> set (splitIntoLines (a @ brks @ b) widthOfString maxWidth fontSize)"
proof
  show "splitIntoLines (a @ brks @ b) widthOfString maxWidth fontSize =
      splitIntoLines a widthOfString maxWidth fontSize @
      splitIntoLines b widthOfString maxWidth fontSize"
    using assms by (rule splitIntoLines_breaks)
  show "[] \<notin> set (splitIntoLines (a @ brks @ b) widthOfString maxWidth fontSize)"
    by (rule splitIntoLines_nonempty)
qed

theorem line_breaks_separate_lines_witness:
  "[lineBreak, lineBreak, lineBreak] \<noteq> [] \<and> list_all newline [lineBreak, lineBreak, lineBreak] \<and>
   splitIntoLines
     ([\<lparr>text = ''a b'', bold = False, italic = False, underline = False, newline = False\<rparr>]
      @ [lineBreak, lineBreak, lineBreak]
      @ [\<lparr>text = ''c'', bold = True, italic = False, underline = False, newline = False\<rparr>])
     (\<lambda>font size txt. real (length txt)) 100 10 =
   [[\<lparr>text = ''a'', bold = False, italic = False, underline = False, newline = False\<rparr>,
     \<lparr>text = '' '', bold = False, italic = False, underline = False, newline = False\<rparr>,
     \<lparr>text = ''b'', bold = False, italic = False, underline = False, newline = False\<rparr>],
    [\<lparr>text = ''c'', bold = True, italic = False, underline = False, newline = False\<rparr>]]"
proof -
  have h: "[lineBreak, lineBreak, lineBreak] \<noteq> []" "list_all newline [lineBreak, lineBreak, lineBreak]"
    by (simp_all add: lineBreak_def)
  have e1: "splitIntoLines
     [\<lparr>text = ''a b'', bold = False, italic = False, underline = False, newline = False\<rparr>]
     (\<lambda>font size txt. real (length txt)) 100 10 =
   [[\<lparr>text = ''a'', bold = False, italic = False, underline = False, newline = False\<rparr>,
     \<lparr>text = '' '', bold = False, italic = False, underline = False, newline = False\<rparr>,
     \<lparr>text = ''b'', bold = False, italic = False, underline = False, newline = False\<rparr>]]"
    by code_simp
  have e2: "splitIntoLines
     [\<lparr>text = ''c'', bold = True, italic = False, underline = False, newline = False\<rparr>]
     (\<lambda>font size txt. real (length txt)) 100 10 =
   [[\<lparr>text = ''c'', bold = True, italic = False, underline = False, newline = False\<rparr>]]"
    by code_simp
  show ?thesis
    using h line_breaks_separate_lines [OF h, of
        "[\<lparr>text = ''a b'', bold = False, italic = False, underline = False, newline = False\<rparr>]"
        "[\<lparr>text = ''c'', bold = True, italic = False, underline = False, newline = False\<rparr>]"
        "\<lambda>font size txt. real (length txt)" 100 10] e1 e2
    by simp
qed

section \<open>Properties of the grid paginator\<close>

lemma colLoop_eq:
  "col \<le> columns format \<Longrightarrow>
   colLoop format n page start row col drawn =
   drawn @ map (\<lambda>c. drawAt format page row c (start + row * columns format + c))
     [col ..< min (columns format) (n - (start + row * columns format))]"
proof (induction format n page start row col drawn rule: colLoop.induct)
  case (1 format n page start row col drawn)
  let ?C = "columns format" and ?a = "start + row * columns format"
  show ?case
  proof (cases "col < ?C")
    case False
    then show ?thesis using 1(2) by (subst colLoop.simps) simp
  next
    case True
    show ?thesis
    proof (cases "?a + col \<ge> n")
      case True
      then show ?thesis using \<open>col < ?C\<close> by (subst colLoop.simps) (simp add: Let_def)
    next
      case False
      then have lt: "col < min ?C (n - ?a)" using \<open>col < ?C\<close> by simp
      have "colLoop format n page start row col drawn =
          colLoop format n page start row (col + 1) (drawn @ [drawAt format page row col (?a + col)])"
        using False \<open>col < ?C\<close> by (subst colLoop.simps) (simp add: Let_def drawAt_def)
      also have "\<dots> = (drawn @ [drawAt format page row col (?a + col)]) @
          map (\<lambda>c. drawAt format page row c (?a + c)) [col + 1 ..< min ?C (n - ?a)]"
        using 1(1) [OF \<open>col < ?C\<close> refl] False \<open>col < ?C\<close> by (simp add: drawAt_def)
      also have "\<dots> = drawn @ map (\<lambda>c. drawAt format page row c (?a + c)) [col ..< min ?C (n - ?a)]"
        using lt by (simp add: upt_conv_Cons)
      finally show ?thesis .
    qed
  qed
qed


lemma rowLoop_eq:
  "row \<le> rows format \<Longrightarrow>
   rowLoop format n page start row drawn =
   drawn @ concat (map (\<lambda>r. map (\<lambda>c. drawAt format page r c (start + r * columns format + c))
       [0 ..< min (columns format) (n - (start + r * columns format))]) [row ..< rows format])"
proof (induction format n page start row drawn rule: rowLoop.induct)
  case (1 format n page start row drawn)
  show ?case
  proof (cases "row < rows format")
    case False
    then show ?thesis using 1(2) by (subst rowLoop.simps) simp
  next
    case True
    have "rowLoop format n page start row drawn =
        rowLoop format n page start (row + 1) (colLoop format n page start row 0 drawn)"
      using True by (subst rowLoop.simps) simp
    also have "\<dots> = colLoop format n page start row 0 drawn @
        concat (map (\<lambda>r. map (\<lambda>c. drawAt format page r c (start + r * columns format + c))
          [0 ..< min (columns format) (n - (start + r * columns format))]) [row + 1 ..< rows format])"
      using 1(1) [OF True] True by simp
    finally show ?thesis using True by (simp add: colLoop_eq upt_conv_Cons)
  qed
qed

lemma block:
  fixes x :: nat
  assumes "x < L"
  shows "(page * L + x) div L = page \<and> (page * L + x) mod L = x"
  using assms by simp

lemma spec_at:
  assumes "c < columns format" and "row < rows format"
  shows "specPlacement format (page * (columns format * rows format) + row * columns format + c) =
         drawAt format page row c (page * (columns format * rows format) + row * columns format + c)"
proof -
  let ?C = "columns format" and ?R = "rows format"
  have "row * ?C + c < Suc row * ?C" using assms(1) by simp
  also have "\<dots> \<le> ?R * ?C" using assms(2) by (intro mult_le_mono1) simp
  finally have within: "row * ?C + c < ?C * ?R" by (simp add: mult.commute)
  have p: "(page * (?C * ?R) + row * ?C + c) div (?C * ?R) = page"
    using block [OF within, of page] by (simp add: add.assoc)
  have w: "(page * (?C * ?R) + row * ?C + c) mod (?C * ?R) = row * ?C + c"
    using block [OF within, of page] by (simp add: add.assoc)
  have r: "(row * ?C + c) div ?C = row" and k: "(row * ?C + c) mod ?C = c"
    using assms(1) by simp_all
  show ?thesis
    unfolding specPlacement_def Let_def p w r k drawAt_def by simp
qed

lemma window_upt:
  "take m (drop a [0..<n]) = map (\<lambda>c. a + c) [0 ..< min m (n - a)]"
  by (rule nth_equalityI) (auto simp: min.commute)

lemma row_is_spec:
  assumes "row < rows format"
  shows "map (\<lambda>c. drawAt format page row c (page * (columns format * rows format) + row * columns format + c))
           [0 ..< min (columns format) (n - (page * (columns format * rows format) + row * columns format))] =
         map (specPlacement format)
           (take (columns format) (drop (page * (columns format * rows format) + row * columns format) [0..<n]))"
  unfolding window_upt using assms by (simp add: spec_at)

lemma chunks:
  "concat (map (\<lambda>k. take m (drop (a + k * m) xs)) [0..<K]) = take (K * m) (drop a xs)"
proof (induction K)
  case 0
  then show ?case by simp
next
  case (Suc K)
  have "take (K * m + m) (drop a xs) = take (K * m) (drop a xs) @ take m (drop (K * m) (drop a xs))"
    by (rule take_add)
  then show ?case using Suc by (simp add: add.commute)
qed

lemma page_is_spec:
  "rowLoop format n page (page * (columns format * rows format)) 0 drawn =
   drawn @ map (specPlacement format)
     (take (columns format * rows format) (drop (page * (columns format * rows format)) [0..<n]))"
proof -
  let ?C = "columns format" and ?R = "rows format"
  let ?s = "page * (?C * ?R)"
  have "rowLoop format n page ?s 0 drawn =
      drawn @ concat (map (\<lambda>r. map (\<lambda>c. drawAt format page r c (?s + r * ?C + c))
          [0 ..< min ?C (n - (?s + r * ?C))]) [0 ..< ?R])"
    by (rule rowLoop_eq) simp
  also have "concat (map (\<lambda>r. map (\<lambda>c. drawAt format page r c (?s + r * ?C + c))
          [0 ..< min ?C (n - (?s + r * ?C))]) [0 ..< ?R]) =
      concat (map (\<lambda>r. map (specPlacement format) (take ?C (drop (?s + r * ?C) [0..<n]))) [0 ..< ?R])"
    by (intro arg_cong [where f = concat] map_cong refl row_is_spec) simp
  also have "\<dots> = map (specPlacement format) (concat (map (\<lambda>r. take ?C (drop (?s + r * ?C) [0..<n])) [0 ..< ?R]))"
    by (simp add: map_concat comp_def)
  also have "concat (map (\<lambda>r. take ?C (drop (?s + r * ?C) [0..<n])) [0 ..< ?R]) =
      take (?R * ?C) (drop ?s [0..<n])"
    by (rule chunks)
  finally show ?thesis by (simp add: mult.commute)
qed

lemma pageLoop_finite:
  "page \<le> t \<Longrightarrow>
   pageLoop format n (columns format * rows format) (Finite t) page trace =
   Some \<lparr>pagesAdded = pagesAdded trace + (t - page),
         placements = placements trace @ map (specPlacement format)
           (concat (map (\<lambda>p. take (columns format * rows format)
              (drop (0 + p * (columns format * rows format)) [0..<n])) [page ..< t]))\<rparr>"
proof (induction "t - page" arbitrary: page trace)
  case 0
  then show ?case by (subst pageLoop.simps) (simp add: numLess_def)
next
  case (Suc d)
  then have lt: "page < t" and d: "d = t - (page + 1)" and le: "page + 1 \<le> t" by simp_all
  let ?L = "columns format * rows format"
  let ?trace = "\<lparr>pagesAdded = pagesAdded trace + 1,
      placements = rowLoop format n page (page * ?L) 0 (placements trace)\<rparr>"
  have "pageLoop format n ?L (Finite t) page trace = pageLoop format n ?L (Finite t) (page + 1) ?trace"
    using lt by (subst pageLoop.simps) (simp add: numLess_def Let_def)
  also have "\<dots> = Some \<lparr>pagesAdded = pagesAdded ?trace + (t - (page + 1)),
         placements = placements ?trace @ map (specPlacement format)
           (concat (map (\<lambda>p. take ?L (drop (0 + p * ?L) [0..<n])) [page + 1 ..< t]))\<rparr>"
    using Suc(1) [OF d le] .
  finally show ?case using lt by (simp add: page_is_spec upt_conv_Cons)
qed

lemma pages_cover:
  assumes "0 < d"
  shows "n \<le> nat \<lceil>real n / real d\<rceil> * d"
proof -
  let ?z = "\<lceil>real n / real d\<rceil>"
  have "0 \<le> real n / real d" by simp
  then have z: "0 \<le> ?z" by linarith
  have dpos: "0 < real d" using assms by simp
  have "real n \<le> real_of_int ?z * real d"
    by (rule iffD1 [OF pos_divide_le_eq [OF dpos]]) (rule le_of_int_ceiling)
  also have "real_of_int ?z = real (nat ?z)" using z by simp
  finally have "real n \<le> real (nat ?z * d)" by simp
  then show ?thesis by (simp only: of_nat_le_iff)
qed

text \<open>
  C3. For a format with at least one column and one row, \<open>generatePDF\<close> returns: it adds
  \<open>ceil(recordCount / labelsPerPage)\<close> pages and draws the records in the order of their
  indices, the record \<open>i\<close> on page \<open>i div labelsPerPage\<close>, at row
  \<open>(i mod labelsPerPage) div columns\<close> and column \<open>(i mod labelsPerPage) mod columns\<close>, with
  its box at \<open>x = marginLeft + column * (labelWidth + horizontalGap)\<close> and
  \<open>y = marginTop + row * (labelHeight + verticalGap)\<close>. For 7 records on a grid of 2 columns
  and 3 rows, that is 2 pages, and the record 6 on page 1 at row 0 and column 0.
\<close>

theorem pagination_row_major:
  assumes "0 < columns format" and "0 < rows format"
  shows "generatePDF format data =
           Some \<lparr>pagesAdded = nat \<lceil>real (length data) / real (columns format * rows format)\<rceil>,
                 placements = map (specPlacement format) [0 ..< length data]\<rparr>"
proof -
  let ?L = "columns format * rows format" and ?n = "length data"
  let ?T = "nat \<lceil>real ?n / real ?L\<rceil>"
  have L: "0 < ?L" using assms by simp
  have "concat (map (\<lambda>p. take ?L (drop (0 + p * ?L) [0..<?n])) [0 ..< ?T]) = take (?T * ?L) (drop 0 [0..<?n])"
    by (rule chunks)
  also have "\<dots> = [0..<?n]" using pages_cover [OF L, of ?n] by simp
  finally have all: "concat (map (\<lambda>p. take ?L (drop (0 + p * ?L) [0..<?n])) [0 ..< ?T]) = [0..<?n]" .
  have "generatePDF format data = pageLoop format ?n ?L (Finite ?T) 0 \<lparr>pagesAdded = 0, placements = []\<rparr>"
    using L by (simp add: generatePDF_def ceilDiv_def Let_def)
  also have "\<dots> = Some \<lparr>pagesAdded = ?T, placements = map (specPlacement format) [0..<?n]\<rparr>"
    using pageLoop_finite [of 0 ?T format ?n "\<lparr>pagesAdded = 0, placements = []\<rparr>"] all by simp
  finally show ?thesis .
qed

theorem pagination_row_major_witness:
  "0 < columns sampleFormat \<and> 0 < rows sampleFormat \<and>
   columns sampleFormat * rows sampleFormat = 6 \<and>
   generatePDF sampleFormat (replicate 7 []) =
     Some \<lparr>pagesAdded = 2, placements = map (specPlacement sampleFormat) [0, 1, 2, 3, 4, 5, 6]\<rparr> \<and>
   specPlacement sampleFormat 6 =
     \<lparr>onPage = 1, inRow = 0, inCol = 0, ofRecord = 6, atX = 13.5, atY = 36\<rparr> \<and>
   specPlacement sampleFormat 3 =
     \<lparr>onPage = 0, inRow = 1, inCol = 1, ofRecord = 3, atX = 310.5, atY = 276\<rparr>"
proof -
  have h: "0 < columns sampleFormat" "0 < rows sampleFormat"
    by (simp_all add: sampleFormat_def)
  have pages: "nat \<lceil>real (length (replicate 7 ([]::(string \<times> string) list))) /
      real (columns sampleFormat * rows sampleFormat)\<rceil> = 2"
    by (simp add: sampleFormat_def)
  have indices: "[0 ..< length (replicate 7 ([]::(string \<times> string) list))] = [0, 1, 2, 3, 4, 5, 6]"
    by (simp add: upt_rec)
  have spec: "specPlacement sampleFormat 6 =
      \<lparr>onPage = 1, inRow = 0, inCol = 0, ofRecord = 6, atX = 13.5, atY = 36\<rparr>"
    "specPlacement sampleFormat 3 =
      \<lparr>onPage = 0, inRow = 1, inCol = 1, ofRecord = 3, atX = 310.5, atY = 276\<rparr>"
    by (simp_all add: specPlacement_def sampleFormat_def)
  have grid: "columns sampleFormat * rows sampleFormat = 6"
    by (simp add: sampleFormat_def)
  show ?thesis
    using h grid spec pagination_row_major [OF h, of "replicate 7 []"]
    unfolding pages indices by (intro conjI)
qed

text \<open>
  Without the hypothesis on the grid: a format with no column or no row gives
  \<open>labelsPerPage = 0\<close> and, for data that is not empty, \<open>totalPages = Infinity\<close>; the loop
  over the pages then adds pages without end and \<open>generatePDF\<close> does not return.
\<close>

lemma pageLoop_returns_finite:
  assumes "pageLoop format n labelsPerPage totalPages page trace = Some result"
  shows "totalPages \<noteq> Infinity"
  by (rule pageLoop.raw_induct [where P = "\<lambda>a b c tp d e f. tp \<noteq> Infinity", OF _ assms])
     (auto simp: numLess_def Let_def split: if_splits)

lemma generatePDF_empty_grid:
  assumes "columns format * rows format = 0" and "data \<noteq> []"
  shows "generatePDF format data = None"
proof (cases "generatePDF format data")
  case None
  then show ?thesis .
next
  case (Some result)
  then have "pageLoop format (length data) 0 Infinity 0 \<lparr>pagesAdded = 0, placements = []\<rparr> = Some result"
    using assms by (simp add: generatePDF_def ceilDiv_def Let_def)
  then show ?thesis using pageLoop_returns_finite by blast
qed

end
